theory Spec2Isabelle
  imports Main "HOL-Library.AList" "HOL-Library.Multiset"
begin

section \<open>Data frames\<close>

text \<open>
  The notebook \<^verbatim>\<open>20_Using_huggingface_within_widedeep.ipynb\<close> works on one pandas
  data frame. A frame is modelled column by column, as pandas stores it: an index (the
  row labels) and an association list from column names to columns, in column order.
  A column is a list of cells; a cell is an integer, a string or the missing value.
  Floating point cells other than the missing value do not occur in the columns the
  notebook computes with and are not modelled.
\<close>

datatype cell = IntV int | StrV string | NaN

datatype error =
    KeyError string
  | AttributeError
  | TypeError
  | ValueError

record dataframe =
  index :: "nat list"
  cols :: "(string \<times> cell list) list"

definition columns :: "dataframe \<Rightarrow> string list" where
  "columns df = map fst (cols df)"

definition nrows :: "dataframe \<Rightarrow> nat" where
  "nrows df = length (index df)"

text \<open>Every column of a frame is as long as its index.\<close>

definition rectangular :: "dataframe \<Rightarrow> bool" where
  "rectangular df = list_all (\<lambda>p. length (snd p) = length (index df)) (cols df)"

text \<open>\<^verbatim>\<open>df["c"]\<close> raises KeyError on a missing column, \<^verbatim>\<open>df.c\<close> raises AttributeError.\<close>

definition getitem :: "dataframe \<Rightarrow> string \<Rightarrow> error + cell list" where
  "getitem df c = (case map_of (cols df) c of None \<Rightarrow> Inl (KeyError c) | Some xs \<Rightarrow> Inr xs)"

definition getattr :: "dataframe \<Rightarrow> string \<Rightarrow> error + cell list" where
  "getattr df c = (case map_of (cols df) c of None \<Rightarrow> Inl AttributeError | Some xs \<Rightarrow> Inr xs)"

text \<open>\<^verbatim>\<open>df["c"] = xs\<close> replaces the column in place, or appends it as the last column.\<close>

definition setitem :: "dataframe \<Rightarrow> string \<Rightarrow> cell list \<Rightarrow> dataframe" where
  "setitem df c xs = df\<lparr>cols := AList.update c xs (cols df)\<rparr>"

text \<open>Selection by a boolean mask, \<^verbatim>\<open>df[mask]\<close>: the rows whose mask entry is true.\<close>

definition sel :: "bool list \<Rightarrow> 'a list \<Rightarrow> 'a list" where
  "sel bs xs = map snd (filter fst (zip bs xs))"

definition select_rows :: "bool list \<Rightarrow> dataframe \<Rightarrow> dataframe" where
  "select_rows bs df =
     \<lparr>index = sel bs (index df), cols = map (\<lambda>p. (fst p, sel bs (snd p))) (cols df)\<rparr>"

text \<open>\<^verbatim>\<open>df.drop("c", axis=1)\<close> raises KeyError when the column is not there.\<close>

definition without_column :: "string \<Rightarrow> dataframe \<Rightarrow> dataframe" where
  "without_column c df = df\<lparr>cols := filter (\<lambda>p. fst p \<noteq> c) (cols df)\<rparr>"

definition drop_column :: "dataframe \<Rightarrow> string \<Rightarrow> error + dataframe" where
  "drop_column df c =
     (if c \<in> set (columns df) then Inr (without_column c df) else Inl (KeyError c))"

definition reset_index :: "dataframe \<Rightarrow> dataframe" where
  "reset_index df = df\<lparr>index := [0..<length (index df)]\<rparr>"

text \<open>Sequencing of steps that may raise: the first exception ends the cell.\<close>

definition bind :: "error + 'a \<Rightarrow> ('a \<Rightarrow> error + 'b) \<Rightarrow> error + 'b" where
  "bind m f = (case m of Inl e \<Rightarrow> Inl e | Inr x \<Rightarrow> f x)"

fun traverse :: "('a \<Rightarrow> error + 'b) \<Rightarrow> 'a list \<Rightarrow> error + 'b list" where
  "traverse f [] = Inr []"
| "traverse f (x # xs) =
     (case f x of
        Inl e \<Rightarrow> Inl e
      | Inr y \<Rightarrow> (case traverse f xs of Inl e \<Rightarrow> Inl e | Inr ys \<Rightarrow> Inr (y # ys)))"

section \<open>Mild preprocessing: column names and rating classes\<close>

text \<open>
  \<^verbatim>\<open>df.columns = [c.replace(" ", "_").lower() for c in df.columns]\<close>,
  on the ASCII letters of the data set's column names.
\<close>

definition replace_space :: "string \<Rightarrow> string" where
  "replace_space s = map (\<lambda>c. if c = CHR '' '' then CHR ''_'' else c) s"

definition lower_char :: "char \<Rightarrow> char" where
  "lower_char c =
     (case map_of (zip ''ABCDEFGHIJKLMNOPQRSTUVWXYZ'' ''abcdefghijklmnopqrstuvwxyz'') c of
        None \<Rightarrow> c
      | Some d \<Rightarrow> d)"

definition lower :: "string \<Rightarrow> string" where
  "lower s = map lower_char s"

definition rename_columns :: "dataframe \<Rightarrow> dataframe" where
  "rename_columns df = df\<lparr>cols := map (\<lambda>p. (lower (replace_space (fst p)), snd p)) (cols df)\<rparr>"

text \<open>
  \<^verbatim>\<open>(df["rating"] - 1).astype("int64")\<close>. The subtraction is elementwise: on 64-bit
  integers it wraps around, the missing value stays missing, a string raises TypeError.
  The cast then raises on a missing value (pandas' IntCastingNaNError, a ValueError).
\<close>

definition wrap64 :: "int \<Rightarrow> int" where
  "wrap64 i = (i + 2 ^ 63) mod 2 ^ 64 - 2 ^ 63"

fun minus_one :: "cell \<Rightarrow> error + cell" where
  "minus_one (IntV i) = Inr (IntV (wrap64 (i - 1)))"
| "minus_one NaN = Inr NaN"
| "minus_one (StrV s) = Inl TypeError"

fun astype_int64 :: "cell \<Rightarrow> error + cell" where
  "astype_int64 (IntV i) = Inr (IntV i)"
| "astype_int64 NaN = Inl ValueError"
| "astype_int64 (StrV s) = Inl ValueError"

definition decrement_rating :: "dataframe \<Rightarrow> error + dataframe" where
  "decrement_rating df =
     bind (getitem df ''rating'') (\<lambda>r.
     bind (traverse minus_one r) (\<lambda>r1.
     bind (traverse astype_int64 r1) (\<lambda>r2.
     Inr (setitem df ''rating'' r2))))"

text \<open>\<^verbatim>\<open>df.loc[df.rating == 0, "rating"] = 1\<close>\<close>

definition group_lowest :: "dataframe \<Rightarrow> error + dataframe" where
  "group_lowest df =
     bind (getattr df ''rating'') (\<lambda>r.
     Inr (setitem df ''rating'' (map (\<lambda>x. if x = IntV 0 then IntV 1 else x) r)))"

text \<open>The rating lines of the cell, in order.\<close>

definition remap_rating :: "dataframe \<Rightarrow> error + dataframe" where
  "remap_rating df =
     bind (decrement_rating df) (\<lambda>df1.
     bind (group_lowest df1) (\<lambda>df2.
     decrement_rating df2))"

definition mild_preprocessing :: "dataframe \<Rightarrow> error + dataframe" where
  "mild_preprocessing df = remap_rating (rename_columns df)"

section \<open>Dropping short reviews\<close>

text \<open>
  \<^verbatim>\<open>x.split(" ")\<close>: the pieces of a string between single spaces. Two spaces in a row,
  a leading or a trailing space give an empty piece, and the empty string has one piece.
\<close>

fun split_space :: "string \<Rightarrow> string list" where
  "split_space [] = [[]]"
| "split_space (c # cs) =
     (if c = CHR '' '' then [] # split_space cs
      else (case split_space cs of [] \<Rightarrow> [[c]] | p # ps \<Rightarrow> (c # p) # ps))"

definition isna :: "cell \<Rightarrow> bool" where
  "isna x = (x = NaN)"

text \<open>
  \<^verbatim>\<open>lambda x: len(x.split(" "))\<close>: an integer or a float (the missing value is one)
  has no \<^verbatim>\<open>split\<close>.
\<close>

fun review_length :: "cell \<Rightarrow> error + cell" where
  "review_length (StrV s) = Inr (IntV (int (length (split_space s))))"
| "review_length (IntV i) = Inl AttributeError"
| "review_length NaN = Inl AttributeError"

text \<open>\<^verbatim>\<open>df.review_length >= 5\<close>, elementwise; a comparison with the missing value is false.\<close>

fun ge_five :: "cell \<Rightarrow> error + bool" where
  "ge_five (IntV n) = Inr (5 \<le> n)"
| "ge_five NaN = Inr False"
| "ge_five (StrV s) = Inl TypeError"

text \<open>
  The cell up to the dropped helper column:
  \<^verbatim>\<open>df = df[~df.review_text.isna()]\<close>,
  \<^verbatim>\<open>df["review_length"] = df.review_text.apply(lambda x: len(x.split(" ")))\<close>,
  \<^verbatim>\<open>df = df[df.review_length >= 5]\<close>, \<^verbatim>\<open>df.drop("review_length", axis=1)\<close>.
\<close>

definition short_review_filter :: "dataframe \<Rightarrow> error + dataframe" where
  "short_review_filter df =
     bind (getattr df ''review_text'') (\<lambda>t.
     let df1 = select_rows (map (\<lambda>x. \<not> isna x) t) df in
     bind (getattr df1 ''review_text'') (\<lambda>t1.
     bind (traverse review_length t1) (\<lambda>l.
     let df2 = setitem df1 ''review_length'' l in
     bind (getattr df2 ''review_length'') (\<lambda>l2.
     bind (traverse ge_five l2) (\<lambda>m.
     let df3 = select_rows m df2 in
     drop_column df3 ''review_length'')))))"

text \<open>The whole cell ends with \<^verbatim>\<open>.reset_index(drop=True)\<close>.\<close>

definition drop_short_reviews :: "dataframe \<Rightarrow> error + dataframe" where
  "drop_short_reviews df = bind (short_review_filter df) (\<lambda>d. Inr (reset_index d))"

text \<open>The two cleaning cells one after the other.\<close>

definition cleaning :: "dataframe \<Rightarrow> error + dataframe" where
  "cleaning df = bind (mild_preprocessing df) drop_short_reviews"

text \<open>
  The words of a text in the everyday sense, for comparison with the pieces that
  \<^verbatim>\<open>split(" ")\<close> counts: the non-empty pieces between spaces.
\<close>

definition spec_words :: "string \<Rightarrow> string list" where
  "spec_words s = filter (\<lambda>p. p \<noteq> []) (split_space s)"

text \<open>The rows the cell keeps: a text with at least five pieces.\<close>

fun long_enough :: "cell \<Rightarrow> bool" where
  "long_enough (StrV s) = (5 \<le> length (split_space s))"
| "long_enough (IntV i) = False"
| "long_enough NaN = False"

text \<open>The number of classes the notebook trains for, \<^verbatim>\<open>pred_dim=4\<close>.\<close>

definition num_class :: nat where
  "num_class = 4"

text \<open>What the three rating lines do to one integer rating.\<close>

definition remap :: "int \<Rightarrow> int" where
  "remap r = (let a = wrap64 (r - 1); b = (if a = 0 then 1 else a) in wrap64 (b - 1))"

text \<open>Kinds of cells, and the rating lines on one cell of any kind.\<close>

fun is_str :: "cell \<Rightarrow> bool" where
  "is_str (StrV s) = True"
| "is_str (IntV i) = False"
| "is_str NaN = False"

fun is_int :: "cell \<Rightarrow> bool" where
  "is_int (IntV i) = True"
| "is_int (StrV s) = False"
| "is_int NaN = False"

fun remap_cell :: "cell \<Rightarrow> cell" where
  "remap_cell (IntV r) = IntV (remap r)"
| "remap_cell (StrV s) = StrV s"
| "remap_cell NaN = NaN"

text \<open>
  The positions, in the frame as loaded, of the rows that cleaning keeps: they are the
  row labels the frame carries just before \<^verbatim>\<open>reset_index\<close>.
\<close>

definition surviving_rows :: "cell list \<Rightarrow> nat list" where
  "surviving_rows t = filter (\<lambda>i. long_enough (t ! i)) [0..<length t]"

section \<open>Class-balanced subsampling\<close>

text \<open>
  \<^verbatim>\<open>df.groupby("rating", group_keys=False).apply(lambda x: x.sample(min(len(x), 2369))).sample(1000)\<close>

  The random generator belongs to numpy. It is a parameter of the model: a stream of
  raw draws, read from its head. \<^verbatim>\<open>sample(n)\<close> draws without replacement: \<open>choice\<close> picks
  \<open>n\<close> positions out of a pool, each draw taking one position out of the pool, so every
  run of the stream gives \<open>n\<close> different positions.
\<close>

type_synonym rng = "nat \<Rightarrow> nat"

fun choice :: "rng \<Rightarrow> nat list \<Rightarrow> nat \<Rightarrow> nat list \<times> rng" where
  "choice g pool 0 = ([], g)"
| "choice g pool (Suc n) =
     (if pool = [] then ([], g)
      else (let j = g 0 mod length pool;
                r = choice (\<lambda>i. g (Suc i)) (take j pool @ drop (Suc j) pool) n
            in (pool ! j # fst r, snd r)))"

text \<open>The rows at the given positions, in that order.\<close>

definition take_rows :: "nat list \<Rightarrow> dataframe \<Rightarrow> dataframe" where
  "take_rows ps df =
     \<lparr>index = map (\<lambda>i. index df ! i) ps,
      cols = map (\<lambda>p. (fst p, map (\<lambda>i. snd p ! i) ps)) (cols df)\<rparr>"

text \<open>
  \<^verbatim>\<open>df.sample(n)\<close> raises ValueError when \<open>n\<close> is larger than the number of rows
  ("Cannot take a larger sample than population when 'replace=False'").
\<close>

definition sample :: "nat \<Rightarrow> dataframe \<Rightarrow> rng \<Rightarrow> error + dataframe \<times> rng" where
  "sample n df g =
     (if nrows df < n then Inl ValueError
      else (let r = choice g [0..<nrows df] n in Inr (take_rows (fst r) df, snd r)))"

text \<open>
  \<^verbatim>\<open>groupby("rating")\<close>: one group per rating value, in increasing order of the value,
  each holding the rows with that rating in their order; rows with a missing rating are
  in no group. The rating column holds 64-bit integers since the cast of the
  preprocessing cell; other keys are not modelled.
\<close>

definition int_keys :: "cell list \<Rightarrow> int list" where
  "int_keys r = sort (remdups (concat (map (\<lambda>x. case x of IntV i \<Rightarrow> [i] | _ \<Rightarrow> []) r)))"

definition groupby_rating :: "dataframe \<Rightarrow> error + dataframe list" where
  "groupby_rating df =
     bind (getitem df ''rating'') (\<lambda>r.
     Inr (map (\<lambda>k. select_rows (map (\<lambda>x. x = IntV k) r) df) (int_keys r)))"

text \<open>\<^verbatim>\<open>.apply(lambda x: x.sample(min(len(x), 2369)))\<close>, group after group.\<close>

fun apply_sample :: "dataframe list \<Rightarrow> rng \<Rightarrow> error + dataframe list \<times> rng" where
  "apply_sample [] g = Inr ([], g)"
| "apply_sample (x # xs) g =
     bind (sample (min (nrows x) 2369) x g) (\<lambda>a.
     bind (apply_sample xs (snd a)) (\<lambda>b.
     Inr (fst a # fst b, snd b)))"

text \<open>
  The results of \<open>apply\<close> are concatenated in group order. A column that a later piece
  lacks is filled with missing values.
\<close>

definition column_or_nan :: "dataframe \<Rightarrow> string \<Rightarrow> cell list" where
  "column_or_nan df c =
     (case map_of (cols df) c of None \<Rightarrow> replicate (nrows df) NaN | Some xs \<Rightarrow> xs)"

definition append_rows :: "dataframe \<Rightarrow> dataframe \<Rightarrow> dataframe" where
  "append_rows a b =
     \<lparr>index = index a @ index b,
      cols = map (\<lambda>p. (fst p, snd p @ column_or_nan b (fst p))) (cols a)\<rparr>"

definition no_rows :: "dataframe \<Rightarrow> dataframe" where
  "no_rows df = \<lparr>index = [], cols = map (\<lambda>p. (fst p, [])) (cols df)\<rparr>"

definition concat_rows :: "dataframe \<Rightarrow> dataframe list \<Rightarrow> dataframe" where
  "concat_rows df fs = foldr append_rows fs (no_rows df)"

definition subsample :: "dataframe \<Rightarrow> rng \<Rightarrow> error + dataframe \<times> rng" where
  "subsample df g =
     bind (groupby_rating df) (\<lambda>gs.
     bind (apply_sample gs g) (\<lambda>a.
     sample 1000 (concat_rows df (fst a)) (snd a)))"

text \<open>The number of rows left when every rating class is cut down to at most 2369 rows.\<close>

definition balanced_rows :: "cell list \<Rightarrow> nat" where
  "balanced_rows r = sum_list (map (\<lambda>k. min (count_list r (IntV k)) 2369) (int_keys r))"

text \<open>
  What "uniformly at random" means for \<open>choice\<close>. A run of draws is in range when its
  i-th draw is below the number of positions still in the pool; \<open>stream_of\<close> is a
  generator that delivers a given run. The ordered samples are the lists of \<open>n\<close>
  different positions of the pool. \<open>ranks\<close> reads off a sample the draws that produce
  it.
\<close>

definition draws :: "nat \<Rightarrow> nat \<Rightarrow> nat list set" where
  "draws n m = {ds. length ds = n \<and> (\<forall>i<n. ds ! i < m - i)}"

definition stream_of :: "nat list \<Rightarrow> rng" where
  "stream_of ds = (\<lambda>i. if i < length ds then ds ! i else 0)"

definition samples :: "nat \<Rightarrow> nat list \<Rightarrow> nat list set" where
  "samples n pool = {ps. length ps = n \<and> distinct ps \<and> set ps \<subseteq> set pool}"

fun position :: "nat \<Rightarrow> nat list \<Rightarrow> nat" where
  "position p [] = 0"
| "position p (x # xs) = (if x = p then 0 else Suc (position p xs))"

fun ranks :: "nat list \<Rightarrow> nat list \<Rightarrow> nat list" where
  "ranks pool [] = []"
| "ranks pool (p # ps) =
     position p pool
       # ranks (take (position p pool) pool @ drop (Suc (position p pool)) pool) ps"

text \<open>
  The subsampling step told by row positions of the frame it is given, for comparison
  with the cell: the positions of one rating class; the number of draws the classes
  before a class have used; the positions left when every class is cut down to its
  sample, class after class; and the positions of the final sample of 1000 among them.
\<close>

definition class_positions :: "cell list \<Rightarrow> int \<Rightarrow> nat list" where
  "class_positions rc k = filter (\<lambda>i. rc ! i = IntV k) [0..<length rc]"

definition draws_before :: "cell list \<Rightarrow> int \<Rightarrow> nat" where
  "draws_before rc k =
     sum_list (map (\<lambda>j. min (count_list rc (IntV j)) 2369) (filter (\<lambda>j. j < k) (int_keys rc)))"

definition balanced_positions :: "cell list \<Rightarrow> rng \<Rightarrow> nat list" where
  "balanced_positions rc g =
     concat (map (\<lambda>k. map (\<lambda>q. class_positions rc k ! q)
                 (fst (choice (\<lambda>i. g (i + draws_before rc k))
                    [0..<count_list rc (IntV k)] (min (count_list rc (IntV k)) 2369))))
       (int_keys rc))"

definition sampled_positions :: "cell list \<Rightarrow> rng \<Rightarrow> nat list" where
  "sampled_positions rc g =
     map (\<lambda>p. balanced_positions rc g ! p)
       (fst (choice (\<lambda>i. g (i + balanced_rows rc)) [0..<balanced_rows rc] 1000))"

section \<open>Tokenizing the review texts\<close>

text \<open>
  The keyword arguments the notebook passes to the tokenizer:
  \<^verbatim>\<open>max_length=90, padding="max_length", truncation=True, add_special_tokens=True\<close>.
\<close>

datatype padding = DoNotPad | Longest | MaxLength

record params =
  max_length :: "nat option"
  padding :: padding
  truncation :: bool
  add_special_tokens :: bool

definition encode_params :: params where
  "encode_params =
     \<lparr>max_length = Some 90, padding = MaxLength, truncation = True, add_special_tokens = True\<rparr>"

text \<open>
  The tokenizer of the pretrained model is not part of the repository: it is a
  parameter \<open>hf\<close> of everything below, a function from the keyword arguments and a batch
  of texts to one row of token ids per text.
\<close>

type_synonym tokenizer = "params \<Rightarrow> string list \<Rightarrow> int list list"

text \<open>
  Modelled from the spec: \<^verbatim>\<open>HFPreprocessor\<close> of \<^verbatim>\<open>pytorch_widedeep.preprocessing\<close> is
  not among the sources. The spec and the notebook give it two calling conventions:
  built with \<^verbatim>\<open>text_col\<close> and \<^verbatim>\<open>encode_params\<close> it is used through \<^verbatim>\<open>fit\<close> and
  \<^verbatim>\<open>transform\<close>, which read the text column of the frame and encode it with the stored
  arguments; built without them, its \<^verbatim>\<open>encode\<close> method "is simply a wrapper around the
  encode method of HF's tokenizers", called on a list of texts with the arguments.
\<close>

record HFPreprocessor =
  model_name :: string
  text_col :: "string option"
  num_workers :: "nat option"
  stored_params :: "params option"

text \<open>\<^verbatim>\<open>.tolist()\<close> of a text column, as the list of strings the tokenizer is given.\<close>

fun text_of :: "cell \<Rightarrow> error + string" where
  "text_of (StrV s) = Inr s"
| "text_of (IntV i) = Inl TypeError"
| "text_of NaN = Inl TypeError"

definition tolist :: "cell list \<Rightarrow> error + string list" where
  "tolist xs = traverse text_of xs"

definition encode :: "HFPreprocessor \<Rightarrow> tokenizer \<Rightarrow> string list \<Rightarrow> params \<Rightarrow> int list list" where
  "encode pp hf texts kwargs = hf kwargs texts"

definition transform :: "HFPreprocessor \<Rightarrow> tokenizer \<Rightarrow> dataframe \<Rightarrow> error + int list list" where
  "transform pp hf df =
     (case (text_col pp, stored_params pp) of
        (Some c, Some kwargs) \<Rightarrow>
          bind (getitem df c) (\<lambda>xs.
          bind (tolist xs) (\<lambda>texts.
          Inr (encode pp hf texts kwargs)))
      | _ \<Rightarrow> Inl ValueError)"

definition fit_transform :: "HFPreprocessor \<Rightarrow> tokenizer \<Rightarrow> dataframe \<Rightarrow> error + int list list" where
  "fit_transform pp hf df = transform pp hf df"

text \<open>The two preprocessors of the notebook and the four arrays it computes with them.\<close>

definition tokenizer1 :: HFPreprocessor where
  "tokenizer1 =
     \<lparr>model_name = ''distilbert-base-uncased'', text_col = Some ''review_text'',
      num_workers = Some 1, stored_params = Some encode_params\<rparr>"

definition tokenizer2 :: HFPreprocessor where
  "tokenizer2 =
     \<lparr>model_name = ''distilbert-base-uncased'', text_col = None,
      num_workers = Some 1, stored_params = None\<rparr>"

definition X_text_tr1 :: "tokenizer \<Rightarrow> dataframe \<Rightarrow> error + int list list" where
  "X_text_tr1 hf train = fit_transform tokenizer1 hf train"

definition X_text_te1 :: "tokenizer \<Rightarrow> dataframe \<Rightarrow> error + int list list" where
  "X_text_te1 hf test = transform tokenizer1 hf test"

definition X_text_tr2 :: "tokenizer \<Rightarrow> dataframe \<Rightarrow> error + int list list" where
  "X_text_tr2 hf train =
     bind (getattr train ''review_text'') (\<lambda>xs.
     bind (tolist xs) (\<lambda>texts.
     Inr (encode tokenizer2 hf texts
       \<lparr>max_length = Some 90, padding = MaxLength, truncation = True,
        add_special_tokens = True\<rparr>)))"

definition X_text_te2 :: "tokenizer \<Rightarrow> dataframe \<Rightarrow> error + int list list" where
  "X_text_te2 hf test =
     bind (getattr test ''review_text'') (\<lambda>xs.
     bind (tolist xs) (\<lambda>texts.
     Inr (encode tokenizer2 hf texts
       \<lparr>max_length = Some 90, padding = MaxLength, truncation = True,
        add_special_tokens = True\<rparr>)))"

text \<open>
  Modelled from the spec: the tokenizer of the pretrained model belongs to an external
  library. The spec describes its output as "fixed-length integer ID sequences with
  padding/truncation policy supplied as configuration". The policy is modelled on top of
  the subword algorithm, which stays a parameter (\<open>subword_ids\<close>, with the ids of the
  special and padding tokens): with special tokens added a row is the start token, the
  subword ids and the end token; with truncation enabled the subword ids are cut so
  that the row does not exceed the maximal length; with padding to the maximal length
  the row is filled up with the padding token, with padding to the longest row of the
  batch it is filled up to that length.
\<close>

record vocabulary =
  subword_ids :: "string \<Rightarrow> int list"
  cls_id :: int
  sep_id :: int
  pad_id :: int

definition encode_plus :: "vocabulary \<Rightarrow> params \<Rightarrow> string \<Rightarrow> int list" where
  "encode_plus v kwargs text =
     (let special = (if add_special_tokens kwargs then 2 else 0);
          ids = (case max_length kwargs of
                   Some l \<Rightarrow> if truncation kwargs then take (l - special) (subword_ids v text)
                             else subword_ids v text
                 | None \<Rightarrow> subword_ids v text);
          row = (if add_special_tokens kwargs then cls_id v # ids @ [sep_id v] else ids)
      in case max_length kwargs of
           Some l \<Rightarrow> if padding kwargs = MaxLength
                     then row @ replicate (l - length row) (pad_id v) else row
         | None \<Rightarrow> row)"

definition batch_encode_plus :: "vocabulary \<Rightarrow> tokenizer" where
  "batch_encode_plus v kwargs texts =
     (let rows = map (encode_plus v kwargs) texts;
          longest = foldr max (map length rows) 0
      in if padding kwargs = Longest
         then map (\<lambda>row. row @ replicate (longest - length row) (pad_id v)) rows
         else rows)"

section \<open>The model and its predictions\<close>

text \<open>
  \<^verbatim>\<open>hf_model = HFModel(model_name=model_name)\<close> and
  \<^verbatim>\<open>model = WideDeep(deeptext=hf_model, pred_dim=4)\<close>.

  Modelled from the spec: \<^verbatim>\<open>HFModel\<close> and \<^verbatim>\<open>WideDeep\<close> of \<^verbatim>\<open>pytorch_widedeep.models\<close>
  are not among the sources. The spec describes the pretrained transformer wrapper as
  "a pluggable text-feature submodule, composed into a larger composite predictor
  alongside other (absent, in this example) wide/deep branches": the composite has one
  optional slot per branch, and a branch that the call does not pass is absent.
\<close>

datatype component = HFModel string

record WideDeep =
  wide :: "component option"
  deeptabular :: "component option"
  deeptext :: "component option"
  deepimage :: "component option"
  pred_dim :: nat

definition hf_model :: component where
  "hf_model = HFModel ''distilbert-base-uncased''"

definition model :: WideDeep where
  "model = \<lparr>wide = None, deeptabular = None, deeptext = Some hf_model, deepimage = None,
            pred_dim = 4\<rparr>"

text \<open>The branches plugged into a composite, by the name of their slot.\<close>

definition branches :: "WideDeep \<Rightarrow> (string \<times> component) list" where
  "branches m =
     concat (map (\<lambda>p. case snd p of None \<Rightarrow> [] | Some c \<Rightarrow> [(fst p, c)])
       [(''wide'', wide m), (''deeptabular'', deeptabular m), (''deeptext'', deeptext m),
        (''deepimage'', deepimage m)])"

text \<open>
  \<^verbatim>\<open>np.argmax(preds_text, 1)\<close>: for every row the first position of its largest entry;
  numpy raises ValueError on an empty row. The entries are floating point numbers in
  the notebook; the model takes any linearly ordered type.
\<close>

fun argmax_from :: "'a::linorder \<Rightarrow> nat \<Rightarrow> nat \<Rightarrow> 'a list \<Rightarrow> nat" where
  "argmax_from best at i [] = at"
| "argmax_from best at i (x # xs) =
     (if best < x then argmax_from x i (Suc i) xs else argmax_from best at (Suc i) xs)"

definition argmax :: "'a::linorder list \<Rightarrow> error + nat" where
  "argmax row = (case row of [] \<Rightarrow> Inl ValueError | x # xs \<Rightarrow> Inr (argmax_from x 0 1 xs))"

definition pred_text_class :: "'a::linorder list list \<Rightarrow> error + nat list" where
  "pred_text_class preds_text = traverse argmax preds_text"

text \<open>
  Modelled from the spec: \<^verbatim>\<open>Trainer.predict_proba\<close> is not among the sources, and the
  network behind it computes in floating point. Its result \<^verbatim>\<open>preds_text\<close> is a parameter
  of the model. The spec's composite predictor has \<open>pred_dim\<close> outputs; that the result
  has one row per input with one class probability per output is the shape below, a
  hypothesis wherever the predictions are used.
\<close>

definition predict_proba_shape :: "WideDeep \<Rightarrow> 'a list list \<Rightarrow> bool" where
  "predict_proba_shape m preds_text = list_all (\<lambda>row. length row = pred_dim m) preds_text"

section \<open>Properties of the data frame operations\<close>

lemma bind_Inr [simp]: "bind (Inr x) f = f x"
  by (simp add: bind_def)

lemma bind_Inl [simp]: "bind (Inl e) f = Inl e"
  by (simp add: bind_def)

lemma getitem_setitem:
  "getitem (setitem df c xs) c' = (if c' = c then Inr xs else getitem df c')"
  by (simp add: getitem_def setitem_def update_conv')

lemma getitem_setitem_same: "getitem (setitem df c xs) c = Inr xs"
  by (simp add: getitem_setitem)

lemma getattr_setitem:
  "getattr (setitem df c xs) c' = (if c' = c then Inr xs else getattr df c')"
  by (simp add: getattr_def setitem_def update_conv')

lemma getattr_Inr_iff: "getattr df c = Inr xs \<longleftrightarrow> getitem df c = Inr xs"
  by (simp add: getattr_def getitem_def split: option.splits)

lemma setitem_setitem [simp]: "setitem (setitem df c xs) c ys = setitem df c ys"
  by (simp add: setitem_def)

lemma index_setitem [simp]: "index (setitem df c xs) = index df"
  by (simp add: setitem_def)

subsection \<open>The rating lines on integer ratings\<close>

lemma traverse_minus_one_ints:
  "traverse minus_one (map IntV rs) = Inr (map (\<lambda>r. IntV (wrap64 (r - 1))) rs)"
  by (induction rs) simp_all

lemma traverse_astype_ints: "traverse astype_int64 (map IntV rs) = Inr (map IntV rs)"
  by (induction rs) simp_all

lemma decrement_rating_ints:
  assumes "getitem df ''rating'' = Inr (map IntV rs)"
  shows "decrement_rating df = Inr (setitem df ''rating'' (map (\<lambda>r. IntV (wrap64 (r - 1))) rs))"
proof -
  have "traverse astype_int64 (map (\<lambda>r. IntV (wrap64 (r - 1))) rs)
          = Inr (map (\<lambda>r. IntV (wrap64 (r - 1))) rs)"
    using traverse_astype_ints [of "map (\<lambda>r. wrap64 (r - 1)) rs"] by (simp add: comp_def)
  then show ?thesis
    using assms by (simp add: decrement_rating_def traverse_minus_one_ints)
qed

lemma remap_rating_ints:
  assumes "getitem df ''rating'' = Inr (map IntV rs)"
  shows "remap_rating df = Inr (setitem df ''rating'' (map (\<lambda>r. IntV (remap r)) rs))"
proof -
  let ?d1 = "setitem df ''rating'' (map (\<lambda>r. IntV (wrap64 (r - 1))) rs)"
  let ?bs = "map (\<lambda>r. if wrap64 (r - 1) = 0 then 1 else wrap64 (r - 1)) rs"
  have 1: "decrement_rating df = Inr ?d1"
    by (rule decrement_rating_ints [OF assms])
  have 2: "group_lowest ?d1 = Inr (setitem df ''rating'' (map IntV ?bs))"
    by (simp add: group_lowest_def getattr_setitem comp_def if_distrib cong: if_cong)
  have g: "getitem (setitem df ''rating'' (map IntV ?bs)) ''rating'' = Inr (map IntV ?bs)"
    by (rule getitem_setitem_same)
  have "map (\<lambda>r. IntV (wrap64 (r - 1))) ?bs = map (\<lambda>r. IntV (remap r)) rs"
    by (simp add: remap_def Let_def)
  then have 3: "decrement_rating (setitem df ''rating'' (map IntV ?bs))
             = Inr (setitem df ''rating'' (map (\<lambda>r. IntV (remap r)) rs))"
    using decrement_rating_ints [OF g] by (simp only: setitem_setitem)
  show ?thesis
    by (simp only: remap_rating_def 1 2 3 bind_Inr)
qed

lemma remap_stars: "r \<in> {1..5} \<Longrightarrow> remap r = max (r - 2) 0"
proof -
  assume "r \<in> {1..5}"
  then have "r = 1 \<or> r = 2 \<or> r = 3 \<or> r = 4 \<or> r = 5" by auto
  then show ?thesis by (auto simp: remap_def wrap64_def)
qed

subsection \<open>Masks, columns and the short-review filter\<close>

lemma rename_review_text: "lower (replace_space ''Review Text'') = ''review_text''"
  by (simp add: lower_def replace_space_def lower_char_def)

lemma length_split_space: "length (split_space s) = Suc (count_list s CHR '' '')"
  by (induction s) (auto split: list.splits)

lemma sel_map_filter: "sel (map P xs) xs = filter P xs"
  by (induction xs) (auto simp: sel_def)

lemma sel_Cons: "sel (b # bs) (x # xs) = (if b then x # sel bs xs else sel bs xs)"
  by (simp add: sel_def)

lemma sel_Nil [simp]: "sel [] xs = []" "sel bs [] = []"
  by (simp_all add: sel_def)

lemma sel_sel:
  "length xs = length t \<Longrightarrow>
   sel (map Q (filter P t)) (sel (map P t) xs) = sel (map (\<lambda>x. P x \<and> Q x) t) xs"
proof (induction t arbitrary: xs)
  case Nil
  then show ?case by simp
next
  case (Cons a t)
  then obtain y ys where "xs = y # ys" by (cases xs) auto
  with Cons show ?case by (simp add: sel_Cons)
qed

lemma map_of_map_snd: "map_of (map (\<lambda>p. (fst p, f (snd p))) al) k = map_option f (map_of al k)"
  by (induction al) auto

lemma getattr_select_rows:
  "getattr (select_rows bs df) c = (case getattr df c of Inl e \<Rightarrow> Inl e | Inr xs \<Rightarrow> Inr (sel bs xs))"
  by (simp add: getattr_def select_rows_def map_of_map_snd split: option.splits)

lemma getitem_select_rows:
  "getitem (select_rows bs df) c = (case getitem df c of Inl e \<Rightarrow> Inl e | Inr xs \<Rightarrow> Inr (sel bs xs))"
  by (simp add: getitem_def select_rows_def map_of_map_snd split: option.splits)

lemma traverse_review_length:
  "traverse review_length xs =
     (if list_all is_str xs then Inr (map (\<lambda>x. case x of StrV s \<Rightarrow> IntV (int (length (split_space s))) | _ \<Rightarrow> x) xs)
      else Inl AttributeError)"
proof (induction xs)
  case Nil
  show ?case by simp
next
  case (Cons x xs)
  then show ?case by (cases x) (simp_all)
qed

lemma traverse_ge_five:
  "list_all is_str xs \<Longrightarrow>
   traverse ge_five (map (\<lambda>x. case x of StrV s \<Rightarrow> IntV (int (length (split_space s))) | _ \<Rightarrow> x) xs)
     = Inr (map long_enough xs)"
proof (induction xs)
  case Nil
  show ?case by simp
next
  case (Cons x xs)
  then show ?case by (cases x) (simp_all)
qed

lemma filter_update_same:
  "filter (\<lambda>p. fst p \<noteq> k) (AList.update k v al) = filter (\<lambda>p. fst p \<noteq> k) al"
  by (induction al) auto

lemma without_select_setitem:
  "without_column c (select_rows bs (setitem df c xs)) = without_column c (select_rows bs df)"
proof -
  have "filter (\<lambda>p. fst p \<noteq> c) (map (\<lambda>p. (fst p, sel bs (snd p))) (AList.update c xs (cols df)))
      = map (\<lambda>p. (fst p, sel bs (snd p))) (filter (\<lambda>p. fst p \<noteq> c) (AList.update c xs (cols df)))"
    by (simp add: filter_map comp_def)
  also have "\<dots> = map (\<lambda>p. (fst p, sel bs (snd p))) (filter (\<lambda>p. fst p \<noteq> c) (cols df))"
    by (simp only: filter_update_same)
  also have "\<dots> = filter (\<lambda>p. fst p \<noteq> c) (map (\<lambda>p. (fst p, sel bs (snd p))) (cols df))"
    by (simp add: filter_map comp_def)
  finally show ?thesis
    by (simp add: without_column_def select_rows_def setitem_def)
qed

lemma select_select:
  assumes "rectangular df" and "length t = length (index df)"
  shows "select_rows (map Q (filter P t)) (select_rows (map P t) df)
           = select_rows (map (\<lambda>x. P x \<and> Q x) t) df"
proof -
  have "map (\<lambda>p. (fst p, sel (map Q (filter P t)) (sel (map P t) (snd p)))) (cols df)
      = map (\<lambda>p. (fst p, sel (map (\<lambda>x. P x \<and> Q x) t) (snd p))) (cols df)"
    using assms by (intro map_cong refl) (simp add: rectangular_def list_all_iff sel_sel)
  then show ?thesis
    using assms by (simp add: select_rows_def sel_sel comp_def)
qed


lemma column_length:
  "rectangular df \<Longrightarrow> getattr df c = Inr t \<Longrightarrow> length t = length (index df)"
proof -
  assume r: "rectangular df" and g: "getattr df c = Inr t"
  from g have "map_of (cols df) c = Some t"
    by (simp add: getattr_def split: option.splits)
  then have "(c, t) \<in> set (cols df)" by (rule map_of_SomeD)
  with r show ?thesis by (force simp: rectangular_def list_all_iff)
qed

lemma columns_select_rows [simp]: "columns (select_rows bs df) = columns df"
  by (simp add: columns_def select_rows_def comp_def)

lemma in_columns_setitem: "c \<in> set (columns (setitem df c xs))"
  using dom_update [of c xs "cols df"] by (simp add: columns_def setitem_def)

lemma long_enough_not_na: "(\<not> isna x \<and> long_enough x) = long_enough x"
  by (cases x) (simp_all add: isna_def)

lemma short_review_filter_eq:
  assumes "rectangular df" and "getattr df ''review_text'' = Inr t"
  shows "short_review_filter df =
     (if list_all (\<lambda>x. is_str x \<or> isna x) t
      then Inr (without_column ''review_length'' (select_rows (map long_enough t) df))
      else Inl AttributeError)"
proof -
  let ?t1 = "filter (\<lambda>x. \<not> isna x) t"
  let ?df1 = "select_rows (map (\<lambda>x. \<not> isna x) t) df"
  let ?l = "map (\<lambda>x. case x of StrV s \<Rightarrow> IntV (int (length (split_space s))) | _ \<Rightarrow> x) ?t1"
  have t1: "getattr ?df1 ''review_text'' = Inr ?t1"
    by (simp add: getattr_select_rows assms(2) sel_map_filter)
  have strs: "list_all is_str ?t1 = list_all (\<lambda>x. is_str x \<or> isna x) t"
    by (auto simp: list_all_iff)
  show ?thesis
  proof (cases "list_all (\<lambda>x. is_str x \<or> isna x) t")
    case False
    then have "traverse review_length ?t1 = Inl AttributeError"
      using strs by (simp add: traverse_review_length)
    then show ?thesis
      using False by (simp add: short_review_filter_def assms(2) Let_def t1)
  next
    case True
    then have all: "list_all is_str ?t1" using strs by simp
    have l: "traverse review_length ?t1 = Inr ?l"
      using all by (simp add: traverse_review_length)
    have m: "traverse ge_five ?l = Inr (map long_enough ?t1)"
      by (rule traverse_ge_five [OF all])
    have len: "length t = length (index df)"
      by (rule column_length [OF assms])
    have "without_column ''review_length''
            (select_rows (map long_enough ?t1) (setitem ?df1 ''review_length'' ?l))
        = without_column ''review_length'' (select_rows (map long_enough ?t1) ?df1)"
      by (rule without_select_setitem)
    also have "select_rows (map long_enough ?t1) ?df1
        = select_rows (map (\<lambda>x. \<not> isna x \<and> long_enough x) t) df"
      by (rule select_select [OF assms(1) len])
    finally have fin: "without_column ''review_length''
            (select_rows (map long_enough ?t1) (setitem ?df1 ''review_length'' ?l))
        = without_column ''review_length'' (select_rows (map long_enough t) df)"
      by (simp only: long_enough_not_na)
    have "short_review_filter df
        = drop_column (select_rows (map long_enough ?t1) (setitem ?df1 ''review_length'' ?l))
            ''review_length''"
      by (simp add: short_review_filter_def assms(2) Let_def t1 l getattr_setitem m)
    also have "\<dots> = Inr (without_column ''review_length''
            (select_rows (map long_enough ?t1) (setitem ?df1 ''review_length'' ?l)))"
      by (simp add: drop_column_def in_columns_setitem)
    finally show ?thesis
      using True fin by simp
  qed
qed



subsection \<open>When the rating lines raise\<close>

lemma traverse_minus_one_str: "list_ex is_str xs \<Longrightarrow> traverse minus_one xs = Inl TypeError"
proof (induction xs)
  case Nil
  then show ?case by simp
next
  case (Cons x xs)
  then show ?case by (cases x) (auto split: sum.splits)
qed

lemma traverse_minus_one_nostr:
  "\<not> list_ex is_str xs \<Longrightarrow>
   traverse minus_one xs = Inr (map (\<lambda>x. case x of IntV i \<Rightarrow> IntV (wrap64 (i - 1)) | _ \<Rightarrow> x) xs)"
proof (induction xs)
  case Nil
  then show ?case by simp
next
  case (Cons x xs)
  then show ?case by (cases x) simp_all
qed

lemma traverse_astype_nan:
  "\<not> list_all is_int xs \<Longrightarrow> traverse astype_int64 xs = Inl ValueError"
proof (induction xs)
  case Nil
  then show ?case by simp
next
  case (Cons x xs)
  then show ?case by (cases x) (auto split: sum.splits)
qed

lemma ints_map_IntV:
  "list_all is_int xs \<Longrightarrow> xs = map IntV (map (\<lambda>x. case x of IntV i \<Rightarrow> i | _ \<Rightarrow> 0) xs)"
proof (induction xs)
  case Nil
  then show ?case by simp
next
  case (Cons x xs)
  then show ?case by (cases x) simp_all
qed

lemma decrement_rating_str:
  "getitem df ''rating'' = Inr rc \<Longrightarrow> list_ex is_str rc \<Longrightarrow> decrement_rating df = Inl TypeError"
  by (simp add: decrement_rating_def traverse_minus_one_str)

lemma decrement_rating_nan:
  assumes "getitem df ''rating'' = Inr rc" and "\<not> list_ex is_str rc" and "\<not> list_all is_int rc"
  shows "decrement_rating df = Inl ValueError"
proof -
  let ?f = "\<lambda>x. case x of IntV i \<Rightarrow> IntV (wrap64 (i - 1)) | _ \<Rightarrow> x"
  have "list_all is_int (map ?f rc) = list_all is_int rc"
    by (induction rc) (auto split: cell.splits)
  with assms(3) have "traverse astype_int64 (map ?f rc) = Inl ValueError"
    by (simp add: traverse_astype_nan)
  with assms(1,2) show ?thesis
    by (simp add: decrement_rating_def traverse_minus_one_nostr)
qed

lemma remap_rating_cases:
  assumes "getitem df ''rating'' = Inr rc"
  shows "remap_rating df =
     (if list_ex is_str rc then Inl TypeError
      else if list_all is_int rc then Inr (setitem df ''rating'' (map remap_cell rc))
      else Inl ValueError)"
proof (cases "list_all is_int rc")
  case True
  then obtain rs where rs: "rc = map IntV rs" using ints_map_IntV by blast
  then have "\<not> list_ex is_str rc" by (auto simp: list_ex_iff)
  moreover have "remap_rating df = Inr (setitem df ''rating'' (map (\<lambda>r. IntV (remap r)) rs))"
    using assms rs by (simp add: remap_rating_ints)
  moreover have "map remap_cell rc = map (\<lambda>r. IntV (remap r)) rs"
    using rs by simp
  ultimately show ?thesis using True by simp
next
  case False
  show ?thesis
  proof (cases "list_ex is_str rc")
    case True
    then show ?thesis
      using assms by (simp add: remap_rating_def decrement_rating_str)
  next
    case nostr: False
    then show ?thesis
      using assms False by (simp add: remap_rating_def decrement_rating_nan)
  qed
qed

lemma remap_rating_no_column:
  "getitem df ''rating'' = Inl e \<Longrightarrow> remap_rating df = Inl e"
  by (simp add: remap_rating_def decrement_rating_def)

lemma rectangular_rename [simp]: "rectangular (rename_columns df) = rectangular df"
  by (simp add: rectangular_def rename_columns_def list_all_iff) 

lemma index_rename [simp]: "index (rename_columns df) = index df"
  by (simp add: rename_columns_def)

lemma rectangular_setitem:
  "rectangular df \<Longrightarrow> length xs = length (index df) \<Longrightarrow> rectangular (setitem df c xs)"
proof -
  assume r: "rectangular df" and l: "length xs = length (index df)"
  have "set (AList.update c xs al) \<subseteq> insert (c, xs) (set al)" for al
    by (induction al) auto
  then have "set (AList.update c xs (cols df)) \<subseteq> insert (c, xs) (set (cols df))" .
  with r l show ?thesis
    by (auto simp: rectangular_def setitem_def list_all_iff)
qed

lemma getitem_reset_index [simp]: "getitem (reset_index df) c = getitem df c"
  by (simp add: getitem_def reset_index_def)

lemma getitem_without_column:
  "getitem (without_column k df) c = (if c = k then Inl (KeyError c) else getitem df c)"
proof -
  have "map_of (filter (\<lambda>p. fst p \<noteq> k) al) c = (if c = k then None else map_of al c)" for al :: "(string \<times> cell list) list"
    by (induction al) auto
  then show ?thesis by (simp add: getitem_def without_column_def)
qed

lemma columns_without_column: "columns (without_column k df) = filter (\<lambda>c. c \<noteq> k) (columns df)"
  by (simp add: columns_def without_column_def filter_map comp_def)

lemma columns_reset_index [simp]: "columns (reset_index df) = columns df"
  by (simp add: columns_def reset_index_def)

subsection \<open>Cleaning as a whole\<close>

lemma map_of_rename:
  "distinct (map (\<lambda>p. f (fst p)) al) \<Longrightarrow> map_of al k = Some v \<Longrightarrow>
   map_of (map (\<lambda>p. (f (fst p), snd p)) al) (f k) = Some v"
proof (induction al)
  case Nil
  then show ?case by simp
next
  case (Cons p al)
  show ?case
  proof (cases "fst p = k")
    case True
    with Cons.prems show ?thesis by simp
  next
    case False
    with Cons.prems have later: "map_of al k = Some v" by simp
    then have "(k, v) \<in> set al" by (rule map_of_SomeD)
    then have mem: "f k \<in> (\<lambda>p. f (fst p)) ` set al" by force
    from Cons.prems(1) have "f (fst p) \<notin> (\<lambda>p. f (fst p)) ` set al" by simp
    with mem have "f (fst p) \<noteq> f k" by metis
    moreover from Cons later have "map_of (map (\<lambda>p. (f (fst p), snd p)) al) (f k) = Some v"
      by simp
    ultimately show ?thesis by simp
  qed
qed

lemma getitem_rename_columns:
  assumes "distinct (map (\<lambda>c. lower (replace_space c)) (columns df))"
    and "getitem df c = Inr xs"
  shows "getitem (rename_columns df) (lower (replace_space c)) = Inr xs"
proof -
  from assms(2) have "map_of (cols df) c = Some xs"
    by (simp add: getitem_def split: option.splits)
  moreover from assms(1) have "distinct (map (\<lambda>p. lower (replace_space (fst p))) (cols df))"
    by (simp add: columns_def comp_def)
  ultimately have "map_of (map (\<lambda>p. (lower (replace_space (fst p)), snd p)) (cols df))
       (lower (replace_space c)) = Some xs"
    by (rule map_of_rename [rotated])
  then show ?thesis by (simp add: getitem_def rename_columns_def)
qed

lemma rename_rating: "lower (replace_space ''Rating'') = ''rating''"
  by (simp add: lower_def replace_space_def lower_char_def)

lemma length_sel: "length xs = length t \<Longrightarrow> length (sel (map P t) xs) = length (filter P t)"
proof (induction t arbitrary: xs)
  case Nil
  then show ?case by simp
next
  case (Cons a t)
  then obtain y ys where "xs = y # ys" by (cases xs) auto
  with Cons show ?case by (simp add: sel_Cons)
qed

lemma cleaning_eq:
  assumes "rectangular df"
    and "getitem (rename_columns df) ''rating'' = Inr rc"
    and "getattr (rename_columns df) ''review_text'' = Inr t"
  shows "cleaning df =
     (if list_ex is_str rc then Inl TypeError
      else if \<not> list_all is_int rc then Inl ValueError
      else if \<not> list_all (\<lambda>x. is_str x \<or> isna x) t then Inl AttributeError
      else Inr (reset_index (without_column ''review_length''
             (select_rows (map long_enough t)
                (setitem (rename_columns df) ''rating'' (map remap_cell rc))))))"
proof (cases "\<not> list_ex is_str rc \<and> list_all is_int rc")
  case False
  then show ?thesis
    using remap_rating_cases [OF assms(2)]
    by (auto simp: cleaning_def mild_preprocessing_def)
next
  case True
  let ?d = "setitem (rename_columns df) ''rating'' (map remap_cell rc)"
  have r: "remap_rating (rename_columns df) = Inr ?d"
    using True remap_rating_cases [OF assms(2)] by simp
  have "length rc = length (index (rename_columns df))"
    using assms(1,2) column_length [of "rename_columns df" "''rating''" rc]
    by (simp add: getattr_Inr_iff)
  then have rect: "rectangular ?d"
    using assms(1) by (simp add: rectangular_setitem)
  have tcol: "getattr ?d ''review_text'' = Inr t"
    using assms(3) by (simp add: getattr_setitem)
  show ?thesis
    using True short_review_filter_eq [OF rect tcol]
    by (simp add: cleaning_def mild_preprocessing_def r drop_short_reviews_def)
qed

lemma sel_nth:
  "length xs = length t \<Longrightarrow>
   sel (map P t) xs = map ((!) xs) (filter (\<lambda>i. P (t ! i)) [0..<length t])"
proof (induction t arbitrary: xs rule: rev_induct)
  case Nil
  then show ?case by simp
next
  case (snoc a t)
  then obtain ys y where xs: "xs = ys @ [y]" by (cases xs rule: rev_cases) auto
  with snoc.prems have len: "length ys = length t" by simp
  have "sel (map P (t @ [a])) (ys @ [y]) = sel (map P t) ys @ (if P a then [y] else [])"
    using len by (simp add: sel_def)
  moreover have "filter (\<lambda>i. P ((t @ [a]) ! i)) [0..<length t] = filter (\<lambda>i. P (t ! i)) [0..<length t]"
    by (intro filter_cong refl) (simp add: nth_append)
  moreover have "map ((!) (ys @ [y])) (filter (\<lambda>i. P (t ! i)) [0..<length t])
             = map ((!) ys) (filter (\<lambda>i. P (t ! i)) [0..<length t])"
    using len by (intro map_cong refl) (simp add: nth_append)
  ultimately show ?case
    using snoc.IH [OF len] xs len by (simp add: nth_append)
qed

lemma index_without_column [simp]: "index (without_column c df) = index df"
  by (simp add: without_column_def)

lemma index_select_rows [simp]: "index (select_rows bs df) = sel bs (index df)"
  by (simp add: select_rows_def)

lemma long_enough_iff:
  "long_enough x \<longleftrightarrow> (\<exists>s. x = StrV s \<and> 4 \<le> count_list s CHR '' '')"
  by (cases x) (auto simp: length_split_space)

text \<open>The definitions that evaluate cleaning on a concrete frame.\<close>

lemmas eval_defs = cleaning_def mild_preprocessing_def remap_rating_def decrement_rating_def
  group_lowest_def rename_columns_def lower_def replace_space_def lower_char_def
  drop_short_reviews_def short_review_filter_def getattr_def getitem_def select_rows_def
  sel_def isna_def setitem_def drop_column_def columns_def without_column_def
  reset_index_def Let_def wrap64_def

subsection \<open>Sampling without replacement\<close>

lemma choice_length: "length (fst (choice g pool n)) = min n (length pool)"
proof (induction n arbitrary: g pool)
  case 0
  show ?case by simp
next
  case (Suc n)
  show ?case
  proof (cases "pool = []")
    case True
    then show ?thesis by simp
  next
    case False
    then have "g 0 mod length pool < length pool" by simp
    then have "length (take (g 0 mod length pool) pool @ drop (Suc (g 0 mod length pool)) pool)
        = length pool - 1" by simp
    with False Suc show ?thesis by (simp add: Let_def) (cases pool; simp)
  qed
qed

lemma choice_distinct:
  "distinct pool \<Longrightarrow> distinct (fst (choice g pool n)) \<and> set (fst (choice g pool n)) \<subseteq> set pool"
proof (induction n arbitrary: g pool)
  case 0
  show ?case by simp
next
  case (Suc n)
  show ?case
  proof (cases "pool = []")
    case True
    then show ?thesis by simp
  next
    case False
    let ?j = "g 0 mod length pool"
    let ?rest = "take ?j pool @ drop (Suc ?j) pool"
    from False have j: "?j < length pool" by simp
    have pool: "pool = take ?j pool @ pool ! ?j # drop (Suc ?j) pool"
      using j by (rule id_take_nth_drop)
    from Suc.prems pool have d: "distinct (take ?j pool @ pool ! ?j # drop (Suc ?j) pool)"
      by simp
    then have dr: "distinct ?rest" and notin: "pool ! ?j \<notin> set ?rest" by auto
    have sub: "set ?rest \<subseteq> set pool"
      using set_take_subset [of ?j pool] set_drop_subset [of "Suc ?j" pool] by auto
    from Suc.IH [OF dr] have
      ih: "distinct (fst (choice (\<lambda>i. g (Suc i)) ?rest n))"
          "set (fst (choice (\<lambda>i. g (Suc i)) ?rest n)) \<subseteq> set ?rest" by auto
    from ih notin sub j False show ?thesis by (auto simp: Let_def)
  qed
qed


lemma count_list_nths:
  assumes "distinct ps" and "set ps \<subseteq> {0..<length B}"
  shows "count_list (map (\<lambda>i. B ! i) ps) x \<le> count_list B x"
proof -
  have "mset ps = mset_set (set ps)"
    using assms(1) by (simp add: mset_set_set)
  also have "\<dots> \<subseteq># mset_set {0..<length B}"
    using assms(2) by (intro subset_imp_msubset_mset_set) auto
  also have "\<dots> = mset [0..<length B]" by (simp add: mset_upt)
  finally have "image_mset (\<lambda>i. B ! i) (mset ps) \<subseteq># image_mset (\<lambda>i. B ! i) (mset [0..<length B])"
    by (rule image_mset_subseteq_mono)
  moreover have "map (\<lambda>i. B ! i) [0..<length B] = B" by (rule map_nth)
  then have "image_mset (\<lambda>i. B ! i) (mset [0..<length B]) = mset B"
    by (metis mset_map)
  ultimately have "mset (map (\<lambda>i. B ! i) ps) \<subseteq># mset B" by simp
  then have "count (mset (map (\<lambda>i. B ! i) ps)) x \<le> count (mset B) x"
    by (rule mset_subset_eq_count)
  then show ?thesis unfolding count_mset .
qed

lemma filter_eq_replicate: "filter (\<lambda>x. x = v) xs = replicate (count_list xs v) v"
  by (induction xs) auto

lemma count_list_replicate: "count_list (replicate n v) x = (if x = v then n else 0)"
  by (induction n) auto

lemma map_of_map_key:
  "map_of (map (\<lambda>p. (fst p, h (fst p) (snd p))) al) k = map_option (h k) (map_of al k)"
  by (induction al) auto

lemma int_keys_distinct: "distinct (int_keys r)"
  by (simp add: int_keys_def)

lemma int_keys_set: "set (int_keys r) = {k. IntV k \<in> set r}"
  by (auto simp: int_keys_def split: cell.splits)

lemma nrows_take_rows [simp]: "nrows (take_rows ps df) = length ps"
  by (simp add: nrows_def take_rows_def)

lemma map_of_take_rows:
  "map_of (cols (take_rows ps df)) c = map_option (\<lambda>xs. map (\<lambda>i. xs ! i) ps) (map_of (cols df) c)"
  using map_of_map_snd [of "\<lambda>xs. map (\<lambda>i. xs ! i) ps" "cols df" c] by (simp add: take_rows_def)

lemma map_of_select_rows:
  "map_of (cols (select_rows bs df)) c = map_option (sel bs) (map_of (cols df) c)"
  by (simp add: select_rows_def map_of_map_snd)




lemma count_list_concat_replicate:
  "distinct ks \<Longrightarrow>
   count_list (concat (map (\<lambda>k. replicate (m k) (IntV k)) ks)) (IntV k)
     = (if k \<in> set ks then m k else 0)"
  by (induction ks) (auto simp: count_list_replicate)



lemma count_list_no_key: "k \<notin> set (int_keys rc) \<Longrightarrow> count_list rc (IntV k) = 0"
  by (simp add: int_keys_set count_list_0_iff)


lemma int_keys_two_classes:
  assumes "a < b" and "0 < m" and "0 < n"
  shows "int_keys (replicate m (IntV b) @ replicate n (IntV a)) = [a, b]"
proof -
  have "set (int_keys (replicate m (IntV b) @ replicate n (IntV a))) = set [a, b]"
    using assms by (auto simp: int_keys_set)
  moreover have "sorted (int_keys (replicate m (IntV b) @ replicate n (IntV a)))"
    by (simp add: int_keys_def)
  moreover have "sorted [a, b]" "distinct [a, b]" using assms(1) by auto
  ultimately show ?thesis
    using int_keys_distinct sorted_distinct_set_unique by blast
qed

text \<open>
  When no rating class is smaller than 2369 rows, as in the notebook's data, at least
  1000 rows are left after the classes are cut down.
\<close>

lemma balanced_rows_min_class:
  assumes "rc \<noteq> []" and "list_all is_int rc"
    and "list_all (\<lambda>k. 2369 \<le> count_list rc (IntV k)) (int_keys rc)"
  shows "1000 \<le> balanced_rows rc"
proof -
  from assms(1) obtain x where x: "x \<in> set rc" by (cases rc) auto
  with assms(2) obtain k where "x = IntV k" by (cases x) (auto simp: list_all_iff)
  with x have k: "k \<in> set (int_keys rc)" by (simp add: int_keys_set)
  with assms(3) have "2369 \<le> count_list rc (IntV k)" by (simp add: list_all_iff)
  then have "min (count_list rc (IntV k)) 2369 = 2369" by simp
  moreover have "min (count_list rc (IntV k)) 2369 \<le> balanced_rows rc"
    unfolding balanced_rows_def using k by (intro member_le_sum_list) auto
  ultimately show ?thesis by simp
qed

subsection \<open>Encoded rows and predicted classes\<close>

lemma tolist_strings: "tolist (map StrV ts) = Inr ts"
  by (induction ts) (simp_all add: tolist_def)

lemma length_encode_plus: "length (encode_plus v encode_params text) = 90"
  by (simp add: encode_plus_def encode_params_def Let_def)

lemma batch_encode_plus_lengths:
  "map length (batch_encode_plus v encode_params texts) = replicate (length texts) 90"
proof -
  have "map length (map (encode_plus v encode_params) texts) = replicate (length texts) 90"
    by (simp add: comp_def length_encode_plus map_replicate_const)
  then show ?thesis
    by (simp add: batch_encode_plus_def encode_params_def Let_def)
qed

lemma argmax_from_bound: "at < i \<Longrightarrow> argmax_from best at i xs < i + length xs"
proof (induction xs arbitrary: best at i)
  case Nil
  then show ?case by simp
next
  case (Cons x xs)
  have "argmax_from x i (Suc i) xs < Suc i + length xs"
    by (rule Cons.IH) simp
  moreover have "argmax_from best at (Suc i) xs < Suc i + length xs"
    using Cons.prems by (intro Cons.IH) simp
  ultimately show ?case by simp
qed

lemma argmax_bound: "row \<noteq> [] \<Longrightarrow> \<exists>c. argmax row = Inr c \<and> c < length row"
proof (cases row)
  case Nil
  assume "row \<noteq> []"
  with Nil show ?thesis by simp
next
  case (Cons x xs)
  have "argmax_from x 0 1 xs < 1 + length xs" by (rule argmax_from_bound) simp
  with Cons show ?thesis by (simp add: argmax_def)
qed

lemma traverse_argmax:
  "list_all (\<lambda>row. length row = n) preds \<Longrightarrow> 0 < n \<Longrightarrow>
   \<exists>cls. traverse argmax preds = Inr cls \<and> length cls = length preds \<and> set cls \<subseteq> {0..<n}"
proof (induction preds)
  case Nil
  show ?case by simp
next
  case (Cons row preds)
  then obtain cls where cls: "traverse argmax preds = Inr cls" "length cls = length preds"
      "set cls \<subseteq> {0..<n}" by auto
  from Cons.prems have "row \<noteq> []" "length row = n" by auto
  then obtain c where c: "argmax row = Inr c" "c < n" using argmax_bound by blast
  from cls c show ?case by simp
qed

lemma remap_labels: "remap ` {1..5} = {0, 1, 2, 3}"
proof -
  have "{1..5::int} = {1, 2, 3, 4, 5}" by auto
  then show ?thesis by (simp add: remap_def wrap64_def)
qed

subsection \<open>Every way cleaning can end\<close>







subsection \<open>Draws in range and ordered samples correspond one to one\<close>

lemma choice_snd: "snd (choice g pool n) = (\<lambda>i. g (i + min n (length pool)))"
proof (induction n arbitrary: g pool)
  case 0
  show ?case by simp
next
  case (Suc n)
  show ?case
  proof (cases "pool = []")
    case True
    then show ?thesis by simp
  next
    case False
    let ?j = "g 0 mod length pool"
    from False have "?j < length pool" by simp
    then have len: "length (take ?j pool @ drop (Suc ?j) pool) = length pool - 1" by simp
    from False have pos: "0 < length pool" by simp
    have "snd (choice g pool (Suc n))
        = snd (choice (\<lambda>i. g (Suc i)) (take ?j pool @ drop (Suc ?j) pool) n)"
      using False by (simp add: Let_def)
    also have "\<dots> = (\<lambda>i. g (Suc (i + min n (length pool - 1))))"
      by (simp only: Suc.IH len)
    also have "\<dots> = (\<lambda>i. g (i + min (Suc n) (length pool)))"
    proof
      fix i
      have "Suc (i + min n (length pool - 1)) = i + min (Suc n) (length pool)"
        using pos by (cases "length pool") auto
      then show "g (Suc (i + min n (length pool - 1))) = g (i + min (Suc n) (length pool))"
        by (rule arg_cong)
    qed
    finally show ?thesis .
  qed
qed

lemma position_nth: "distinct pool \<Longrightarrow> j < length pool \<Longrightarrow> position (pool ! j) pool = j"
proof (induction pool arbitrary: j)
  case Nil
  then show ?case by simp
next
  case (Cons x pool)
  show ?case
  proof (cases j)
    case 0
    then show ?thesis by simp
  next
    case (Suc k)
    with Cons.prems have "k < length pool" "pool ! k \<in> set pool" by auto
    with Cons Suc show ?thesis by auto
  qed
qed

lemma position_mem: "p \<in> set pool \<Longrightarrow> position p pool < length pool \<and> pool ! position p pool = p"
  by (induction pool) auto

lemma stream_of_Cons [simp]: "(\<lambda>i. stream_of (d # ds) (Suc i)) = stream_of ds"
  by (auto simp: stream_of_def fun_eq_iff)

lemma stream_of_0 [simp]: "stream_of (d # ds) 0 = d"
  by (simp add: stream_of_def)

lemma draws_Cons:
  "d # ds \<in> draws (Suc n) m \<longleftrightarrow> d < m \<and> ds \<in> draws n (m - 1)"
proof
  assume a: "d # ds \<in> draws (Suc n) m"
  then have "length ds = n" and all: "\<forall>i<Suc n. (d # ds) ! i < m - i"
    by (auto simp: draws_def)
  from all have "d < m" by force
  moreover have "ds ! i < m - 1 - i" if "i < n" for i
    using all that by (auto dest: spec [of _ "Suc i"])
  ultimately show "d < m \<and> ds \<in> draws n (m - 1)"
    using \<open>length ds = n\<close> by (simp add: draws_def)
next
  assume a: "d < m \<and> ds \<in> draws n (m - 1)"
  then have "length ds = n" and all: "\<forall>i<n. ds ! i < m - 1 - i" by (auto simp: draws_def)
  have "(d # ds) ! i < m - i" if "i < Suc n" for i
  proof (cases i)
    case 0
    with a show ?thesis by simp
  next
    case (Suc k)
    with that all have "ds ! k < m - 1 - k" by simp
    with Suc show ?thesis by simp
  qed
  with \<open>length ds = n\<close> show "d # ds \<in> draws (Suc n) m" by (simp add: draws_def)
qed

lemma ranks_choice:
  "distinct pool \<Longrightarrow> ds \<in> draws n (length pool) \<Longrightarrow>
   ranks pool (fst (choice (stream_of ds) pool n)) = ds"
proof (induction n arbitrary: pool ds)
  case 0
  then show ?case by (simp add: draws_def)
next
  case (Suc n)
  from Suc.prems(2) obtain d ds' where ds: "ds = d # ds'"
    by (cases ds) (auto simp: draws_def)
  with Suc.prems(2) have d: "d < length pool" and ds': "ds' \<in> draws n (length pool - 1)"
    by (simp_all add: draws_Cons)
  let ?rest = "take d pool @ drop (Suc d) pool"
  from d have ne: "pool \<noteq> []" by auto
  have pool: "pool = take d pool @ pool ! d # drop (Suc d) pool"
    using d by (rule id_take_nth_drop)
  with Suc.prems(1) have "distinct (take d pool @ pool ! d # drop (Suc d) pool)" by simp
  then have dr: "distinct ?rest" by simp
  have len: "length ?rest = length pool - 1" using d by simp
  have ih: "ranks ?rest (fst (choice (stream_of ds') ?rest n)) = ds'"
    using Suc.IH [OF dr] ds' len by simp
  have "fst (choice (stream_of ds) pool (Suc n))
      = pool ! d # fst (choice (stream_of ds') ?rest n)"
    using ne d by (simp add: ds Let_def)
  then show ?case
    using ih position_nth [OF Suc.prems(1) d] by (simp add: ds)
qed

lemma choice_ranks:
  "distinct pool \<Longrightarrow> ps \<in> samples n pool \<Longrightarrow>
   ranks pool ps \<in> draws n (length pool)
   \<and> fst (choice (stream_of (ranks pool ps)) pool n) = ps"
proof (induction n arbitrary: pool ps)
  case 0
  then show ?case by (simp add: samples_def draws_def)
next
  case (Suc n)
  from Suc.prems(2) obtain p ps' where ps: "ps = p # ps'"
    by (cases ps) (auto simp: samples_def)
  with Suc.prems(2) have p: "p \<in> set pool" and notin: "p \<notin> set ps'"
    and dps: "distinct ps'" and sub: "set ps' \<subseteq> set pool" and l: "length ps' = n"
    by (auto simp: samples_def)
  let ?j = "position p pool"
  let ?rest = "take ?j pool @ drop (Suc ?j) pool"
  from p have j: "?j < length pool" and pj: "pool ! ?j = p" using position_mem by auto
  from j have ne: "pool \<noteq> []" by auto
  have pool: "pool = take ?j pool @ pool ! ?j # drop (Suc ?j) pool"
    using j by (rule id_take_nth_drop)
  with Suc.prems(1) have d: "distinct (take ?j pool @ pool ! ?j # drop (Suc ?j) pool)" by simp
  then have dr: "distinct ?rest" by simp
  have "set pool = insert p (set ?rest)"
    using pool pj by (metis list.simps(15) set_append Un_insert_right)
  with sub notin have "set ps' \<subseteq> set ?rest" by auto
  with dps l have "ps' \<in> samples n ?rest" by (simp add: samples_def)
  from Suc.IH [OF dr this] have
    ih: "ranks ?rest ps' \<in> draws n (length ?rest)"
        "fst (choice (stream_of (ranks ?rest ps')) ?rest n) = ps'" by auto
  have len: "length ?rest = length pool - 1" using j by simp
  have 1: "ranks pool ps \<in> draws (Suc n) (length pool)"
    using ih(1) j len by (simp add: ps draws_Cons)
  have 2: "fst (choice (stream_of (ranks pool ps)) pool (Suc n)) = ps"
    using ne j pj ih(2) by (simp add: ps Let_def)
  from 1 2 show ?case by simp
qed

lemma choice_uniform:
  assumes "distinct pool" and "n \<le> length pool"
  shows "bij_betw (\<lambda>ds. fst (choice (stream_of ds) pool n)) (draws n (length pool))
           (samples n pool)"
proof (rule bij_betw_byWitness [where f' = "ranks pool"])
  show "\<forall>ds\<in>draws n (length pool). ranks pool (fst (choice (stream_of ds) pool n)) = ds"
    using assms(1) by (simp add: ranks_choice)
  show "\<forall>ps\<in>samples n pool. fst (choice (stream_of (ranks pool ps)) pool n) = ps"
    using assms(1) by (simp add: choice_ranks)
  show "(\<lambda>ds. fst (choice (stream_of ds) pool n)) ` draws n (length pool) \<subseteq> samples n pool"
    using assms choice_distinct [OF assms(1)] by (auto simp: samples_def choice_length)
  show "ranks pool ` samples n pool \<subseteq> draws n (length pool)"
    using assms(1) by (auto simp: choice_ranks)
qed

subsection \<open>The subsampled frame by row positions\<close>

lemma sample_eq:
  "m \<le> nrows G \<Longrightarrow>
   sample m G g = Inr (take_rows (fst (choice g [0..<nrows G] m)) G, \<lambda>i. g (i + m))"
  by (simp add: sample_def Let_def choice_snd)

lemma apply_sample_keys:
  fixes G :: "int \<Rightarrow> dataframe"
  assumes "sorted ks" and "distinct ks"
  shows "apply_sample (map G ks) g =
     Inr (map (\<lambda>k. take_rows
                (fst (choice (\<lambda>i. g (i + sum_list (map (\<lambda>j. min (nrows (G j)) 2369)
                                   (filter (\<lambda>j. j < k) ks))))
                   [0..<nrows (G k)] (min (nrows (G k)) 2369)))
                (G k)) ks,
          \<lambda>i. g (i + sum_list (map (\<lambda>j. min (nrows (G j)) 2369) ks)))"
  using assms
proof (induction ks arbitrary: g)
  case Nil
  show ?case by simp
next
  case (Cons k ks)
  let ?M = "\<lambda>j. min (nrows (G j)) 2369"
  let ?g1 = "\<lambda>i. g (i + ?M k)"
  from Cons.prems have s: "sorted ks" and d: "distinct ks"
    and gt: "\<forall>x\<in>set ks. k < x" by (auto simp: less_le)
  have head: "sample (?M k) (G k) g
      = Inr (take_rows (fst (choice g [0..<nrows (G k)] (?M k))) (G k), ?g1)"
    by (rule sample_eq) simp
  note ih = Cons.IH [OF s d, of ?g1]
  have tail: "map (\<lambda>x. take_rows
                (fst (choice (\<lambda>i. ?g1 (i + sum_list (map ?M (filter (\<lambda>j. j < x) ks))))
                   [0..<nrows (G x)] (?M x))) (G x)) ks
      = map (\<lambda>x. take_rows
                (fst (choice (\<lambda>i. g (i + sum_list (map ?M (filter (\<lambda>j. j < x) (k # ks)))))
                   [0..<nrows (G x)] (?M x))) (G x)) ks"
  proof (rule map_cong [OF refl])
    fix x assume "x \<in> set ks"
    with gt have "k < x" by simp
    then have "(\<lambda>i. ?g1 (i + sum_list (map ?M (filter (\<lambda>j. j < x) ks))))
        = (\<lambda>i. g (i + sum_list (map ?M (filter (\<lambda>j. j < x) (k # ks)))))"
      by (simp add: ac_simps)
    then show "take_rows
                (fst (choice (\<lambda>i. ?g1 (i + sum_list (map ?M (filter (\<lambda>j. j < x) ks))))
                   [0..<nrows (G x)] (?M x))) (G x)
        = take_rows
                (fst (choice (\<lambda>i. g (i + sum_list (map ?M (filter (\<lambda>j. j < x) (k # ks)))))
                   [0..<nrows (G x)] (?M x))) (G x)"
      by simp
  qed
  have fin: "(\<lambda>i. ?g1 (i + sum_list (map ?M ks))) = (\<lambda>i. g (i + sum_list (map ?M (k # ks))))"
    by (simp add: ac_simps)
  have "apply_sample (map G (k # ks)) g
      = Inr (take_rows (fst (choice g [0..<nrows (G k)] (?M k))) (G k)
              # map (\<lambda>x. take_rows
                (fst (choice (\<lambda>i. ?g1 (i + sum_list (map ?M (filter (\<lambda>j. j < x) ks))))
                   [0..<nrows (G x)] (?M x))) (G x)) ks,
             \<lambda>i. ?g1 (i + sum_list (map ?M ks)))"
    by (simp add: head ih)
  then have "apply_sample (map G (k # ks)) g
      = Inr (take_rows (fst (choice g [0..<nrows (G k)] (?M k))) (G k)
              # map (\<lambda>x. take_rows
                (fst (choice (\<lambda>i. g (i + sum_list (map ?M (filter (\<lambda>j. j < x) (k # ks)))))
                   [0..<nrows (G x)] (?M x))) (G x)) ks,
             \<lambda>i. g (i + sum_list (map ?M (k # ks))))"
    by (simp only: tail fin)
  moreover have "filter (\<lambda>j. j < k) ks = []"
    using gt by (auto simp: filter_empty_conv)
  ultimately show ?case by simp
qed


lemma class_positions_set:
  "set (class_positions rc k) = {i. i < length rc \<and> rc ! i = IntV k}"
  by (auto simp: class_positions_def)

lemma class_positions_distinct: "distinct (class_positions rc k)"
  by (simp add: class_positions_def)

lemma class_positions_length: "length (class_positions rc k) = count_list rc (IntV k)"
proof -
  have "map (\<lambda>i. rc ! i) (class_positions rc k) = sel (map (\<lambda>x. x = IntV k) rc) rc"
    using sel_nth [of rc rc "\<lambda>x. x = IntV k"] by (simp add: class_positions_def)
  also have "\<dots> = replicate (count_list rc (IntV k)) (IntV k)"
    by (simp add: sel_map_filter filter_eq_replicate)
  finally have "length (map (\<lambda>i. rc ! i) (class_positions rc k))
      = length (replicate (count_list rc (IntV k)) (IntV k))" by simp
  then show ?thesis by simp
qed

lemma group_column:
  assumes "map_of (cols df) c = Some xs" and "length xs = length rc"
  shows "map_of (cols (select_rows (map (\<lambda>x. x = IntV k) rc) df)) c
           = Some (map (\<lambda>i. xs ! i) (class_positions rc k))"
  using assms sel_nth [of xs rc "\<lambda>x. x = IntV k"]
  by (simp add: map_of_select_rows class_positions_def)

lemma group_index:
  assumes "length (index df) = length rc"
  shows "index (select_rows (map (\<lambda>x. x = IntV k) rc) df)
           = map (\<lambda>i. index df ! i) (class_positions rc k)"
  using assms sel_nth [of "index df" rc "\<lambda>x. x = IntV k"]
  by (simp add: class_positions_def)

lemma map_nth_map:
  "set qs \<subseteq> {0..<length ps} \<Longrightarrow>
   map (\<lambda>q. map f ps ! q) qs = map f (map (\<lambda>q. ps ! q) qs)"
  by (induction qs) auto

lemma take_rows_column:
  assumes "map_of (cols F) c = Some (map (\<lambda>i. xs ! i) ps)" and "set qs \<subseteq> {0..<length ps}"
  shows "map_of (cols (take_rows qs F)) c = Some (map (\<lambda>i. xs ! i) (map (\<lambda>q. ps ! q) qs))"
  using assms map_nth_map [of qs ps "\<lambda>i. xs ! i"] by (simp add: map_of_take_rows)

lemma take_rows_index:
  assumes "index F = map (\<lambda>i. ix ! i) ps" and "set qs \<subseteq> {0..<length ps}"
  shows "index (take_rows qs F) = map (\<lambda>i. ix ! i) (map (\<lambda>q. ps ! q) qs)"
  using assms map_nth_map [of qs ps "\<lambda>i. ix ! i"] by (simp add: take_rows_def)

lemma columns_take_rows [simp]: "columns (take_rows qs F) = columns F"
  by (simp add: columns_def take_rows_def comp_def)

lemma concat_rows_Cons: "concat_rows df (S # ss) = append_rows S (concat_rows df ss)"
  by (simp add: concat_rows_def)

lemma concat_rows_column:
  assumes "map_of (cols df) c = Some xs"
    and "\<forall>k\<in>set ks. map_of (cols (S k)) c = Some (map (\<lambda>i. xs ! i) (Q k))"
  shows "map_of (cols (concat_rows df (map S ks))) c
           = Some (map (\<lambda>i. xs ! i) (concat (map Q ks)))"
  using assms(2)
proof (induction ks)
  case Nil
  show ?case
    using assms(1) map_of_map_snd [of "\<lambda>xs. []" "cols df" c]
    by (simp add: concat_rows_def no_rows_def)
next
  case (Cons k ks)
  let ?rest = "concat_rows df (map S ks)"
  from Cons have rest: "column_or_nan ?rest c = map (\<lambda>i. xs ! i) (concat (map Q ks))"
    by (simp add: column_or_nan_def)
  from Cons.prems have "map_of (cols (S k)) c = Some (map (\<lambda>i. xs ! i) (Q k))" by simp
  then have "map_of (cols (append_rows (S k) ?rest)) c
      = Some (map (\<lambda>i. xs ! i) (Q k) @ column_or_nan ?rest c)"
    using map_of_map_key [of "\<lambda>c xs. xs @ column_or_nan ?rest c" "cols (S k)" c]
    by (simp add: append_rows_def)
  then show ?case by (simp add: concat_rows_Cons rest)
qed

lemma concat_rows_index:
  assumes "\<forall>k\<in>set ks. index (S k) = map (\<lambda>i. ix ! i) (Q k)"
  shows "index (concat_rows df (map S ks)) = map (\<lambda>i. ix ! i) (concat (map Q ks))"
  using assms
proof (induction ks)
  case Nil
  show ?case by (simp add: concat_rows_def no_rows_def)
next
  case (Cons k ks)
  then show ?case by (simp add: concat_rows_Cons append_rows_def)
qed

lemma concat_rows_columns:
  assumes "\<forall>k\<in>set ks. columns (S k) = columns df"
  shows "columns (concat_rows df (map S ks)) = columns df"
proof (cases ks)
  case Nil
  then show ?thesis by (simp add: concat_rows_def no_rows_def columns_def comp_def)
next
  case (Cons k ks')
  with assms have "columns (S k) = columns df" by simp
  then show ?thesis
    by (simp add: Cons concat_rows_Cons append_rows_def columns_def comp_def)
qed

lemma distinct_map_nth:
  "distinct ps \<Longrightarrow> distinct qs \<Longrightarrow> set qs \<subseteq> {0..<length ps} \<Longrightarrow>
   distinct (map (\<lambda>q. ps ! q) qs)"
proof -
  assume ps: "distinct ps" and qs: "distinct qs" and sub: "set qs \<subseteq> {0..<length ps}"
  have "inj_on (\<lambda>q. ps ! q) (set qs)"
  proof (rule inj_onI)
    fix x y assume "x \<in> set qs" "y \<in> set qs" "ps ! x = ps ! y"
    with sub have "x < length ps" "y < length ps" by auto
    with ps \<open>ps ! x = ps ! y\<close> show "x = y" by (simp add: nth_eq_iff_index_eq)
  qed
  with qs show ?thesis by (simp add: distinct_map)
qed

lemma distinct_concat_classes:
  assumes "distinct ks"
    and "\<forall>k\<in>set ks. distinct (B k) \<and> (\<forall>i\<in>set (B k). key i = k)"
  shows "distinct (concat (map B ks))"
  using assms by (induction ks) auto

lemma balanced_block:
  fixes rc :: "cell list" and g :: rng and k :: int
  defines "qs \<equiv> fst (choice (\<lambda>i. g (i + draws_before rc k))
                    [0..<count_list rc (IntV k)] (min (count_list rc (IntV k)) 2369))"
  shows "length qs = min (count_list rc (IntV k)) 2369"
    and "distinct qs"
    and "set qs \<subseteq> {0..<length (class_positions rc k)}"
    and "distinct (map (\<lambda>q. class_positions rc k ! q) qs)"
    and "set (map (\<lambda>q. class_positions rc k ! q) qs) \<subseteq> {i. i < length rc \<and> rc ! i = IntV k}"
    and "map (\<lambda>i. rc ! i) (map (\<lambda>q. class_positions rc k ! q) qs)
           = replicate (min (count_list rc (IntV k)) 2369) (IntV k)"
proof -
  show 1: "length qs = min (count_list rc (IntV k)) 2369"
    by (simp add: qs_def choice_length)
  have cd: "distinct qs \<and> set qs \<subseteq> set [0..<count_list rc (IntV k)]"
    unfolding qs_def by (rule choice_distinct) simp
  then show 2: "distinct qs" by simp
  from cd show 3: "set qs \<subseteq> {0..<length (class_positions rc k)}"
    by (simp add: class_positions_length)
  show "distinct (map (\<lambda>q. class_positions rc k ! q) qs)"
    by (rule distinct_map_nth [OF class_positions_distinct 2 3])
  have mem: "class_positions rc k ! q \<in> set (class_positions rc k)" if "q \<in> set qs" for q
    using 3 that by auto
  then show 5: "set (map (\<lambda>q. class_positions rc k ! q) qs) \<subseteq> {i. i < length rc \<and> rc ! i = IntV k}"
    by (auto simp: class_positions_set)
  have "map (\<lambda>i. rc ! i) (map (\<lambda>q. class_positions rc k ! q) qs) = map (\<lambda>q. IntV k) qs"
    using 5 by (auto simp: comp_def)
  then show "map (\<lambda>i. rc ! i) (map (\<lambda>q. class_positions rc k ! q) qs)
           = replicate (min (count_list rc (IntV k)) 2369) (IntV k)"
    using 1 by (simp add: map_replicate_const)
qed

lemma balanced_positions_distinct: "distinct (balanced_positions rc g)"
  unfolding balanced_positions_def
proof (rule distinct_concat_classes [where key = "\<lambda>i. case rc ! i of IntV j \<Rightarrow> j | _ \<Rightarrow> 0"])
  show "distinct (int_keys rc)" by (rule int_keys_distinct)
  show "\<forall>k\<in>set (int_keys rc).
       distinct (map (\<lambda>q. class_positions rc k ! q)
           (fst (choice (\<lambda>i. g (i + draws_before rc k)) [0..<count_list rc (IntV k)]
              (min (count_list rc (IntV k)) 2369)))) \<and>
       (\<forall>i\<in>set (map (\<lambda>q. class_positions rc k ! q)
           (fst (choice (\<lambda>i. g (i + draws_before rc k)) [0..<count_list rc (IntV k)]
              (min (count_list rc (IntV k)) 2369)))).
           (case rc ! i of IntV j \<Rightarrow> j | _ \<Rightarrow> 0) = k)"
  proof (intro ballI conjI)
    fix k
    show "distinct (map (\<lambda>q. class_positions rc k ! q)
           (fst (choice (\<lambda>i. g (i + draws_before rc k)) [0..<count_list rc (IntV k)]
              (min (count_list rc (IntV k)) 2369))))"
      by (rule balanced_block(4))
    fix i assume "i \<in> set (map (\<lambda>q. class_positions rc k ! q)
           (fst (choice (\<lambda>i. g (i + draws_before rc k)) [0..<count_list rc (IntV k)]
              (min (count_list rc (IntV k)) 2369))))"
    with balanced_block(5) [of rc k g] have "rc ! i = IntV k" by blast
    then show "(case rc ! i of IntV j \<Rightarrow> j | _ \<Rightarrow> 0) = k" by simp
  qed
qed

lemma balanced_positions_range: "set (balanced_positions rc g) \<subseteq> {0..<length rc}"
proof
  fix i assume "i \<in> set (balanced_positions rc g)"
  then obtain k where "i \<in> set (map (\<lambda>q. class_positions rc k ! q)
           (fst (choice (\<lambda>i. g (i + draws_before rc k)) [0..<count_list rc (IntV k)]
              (min (count_list rc (IntV k)) 2369))))"
    by (auto simp: balanced_positions_def)
  with balanced_block(5) [of rc k g] have "i < length rc" by blast
  then show "i \<in> {0..<length rc}" by simp
qed

lemma balanced_positions_ratings:
  "map (\<lambda>i. rc ! i) (balanced_positions rc g)
     = concat (map (\<lambda>k. replicate (min (count_list rc (IntV k)) 2369) (IntV k)) (int_keys rc))"
proof -
  have "map (\<lambda>i. rc ! i) (balanced_positions rc g)
      = concat (map (\<lambda>k. map (\<lambda>i. rc ! i) (map (\<lambda>q. class_positions rc k ! q)
           (fst (choice (\<lambda>i. g (i + draws_before rc k)) [0..<count_list rc (IntV k)]
              (min (count_list rc (IntV k)) 2369))))) (int_keys rc))"
    by (simp add: balanced_positions_def map_concat comp_def)
  then show ?thesis by (simp only: balanced_block(6))
qed

lemma balanced_positions_length: "length (balanced_positions rc g) = balanced_rows rc"
proof -
  have "length (map (\<lambda>i. rc ! i) (balanced_positions rc g)) = balanced_rows rc"
    unfolding balanced_positions_ratings
    by (simp add: balanced_rows_def length_concat comp_def)
  then show ?thesis by simp
qed

lemma balanced_positions_counts:
  "count_list (map (\<lambda>i. rc ! i) (balanced_positions rc g)) (IntV k)
     = min (count_list rc (IntV k)) 2369"
proof -
  have "count_list (map (\<lambda>i. rc ! i) (balanced_positions rc g)) (IntV k)
      = (if k \<in> set (int_keys rc) then min (count_list rc (IntV k)) 2369 else 0)"
    unfolding balanced_positions_ratings
    by (rule count_list_concat_replicate) (rule int_keys_distinct)
  then show ?thesis by (simp add: count_list_no_key)
qed


lemma sampled_positions_props:
  assumes "1000 \<le> balanced_rows rc"
  shows "length (sampled_positions rc g) = 1000"
    and "distinct (sampled_positions rc g)"
    and "set (sampled_positions rc g) \<subseteq> {0..<length rc}"
    and "count_list (map (\<lambda>i. rc ! i) (sampled_positions rc g)) (IntV k)
           \<le> min (count_list rc (IntV k)) 2369"
proof -
  let ?bp = "balanced_positions rc g"
  let ?ps = "fst (choice (\<lambda>i. g (i + balanced_rows rc)) [0..<balanced_rows rc] 1000)"
  have l: "length ?ps = 1000" using assms by (simp add: choice_length)
  have "distinct ?ps \<and> set ?ps \<subseteq> set [0..<balanced_rows rc]"
    by (rule choice_distinct) simp
  then have d: "distinct ?ps" and r: "set ?ps \<subseteq> {0..<length ?bp}"
    by (simp_all add: balanced_positions_length)
  show "length (sampled_positions rc g) = 1000"
    using l by (simp add: sampled_positions_def)
  show "distinct (sampled_positions rc g)"
    unfolding sampled_positions_def
    by (rule distinct_map_nth [OF balanced_positions_distinct d r])
  have "?bp ! p \<in> set ?bp" if "p \<in> set ?ps" for p
    using r that by auto
  then show "set (sampled_positions rc g) \<subseteq> {0..<length rc}"
    using balanced_positions_range [of rc g] by (auto simp: sampled_positions_def)
  have "map (\<lambda>i. rc ! i) (sampled_positions rc g)
      = map (\<lambda>p. map (\<lambda>i. rc ! i) ?bp ! p) ?ps"
    using map_nth_map [OF r, of "\<lambda>i. rc ! i"] by (simp add: sampled_positions_def)
  moreover have "set ?ps \<subseteq> {0..<length (map (\<lambda>i. rc ! i) ?bp)}" using r by simp
  ultimately have "count_list (map (\<lambda>i. rc ! i) (sampled_positions rc g)) (IntV k)
      \<le> count_list (map (\<lambda>i. rc ! i) ?bp) (IntV k)"
    using count_list_nths [OF d, of "map (\<lambda>i. rc ! i) ?bp" "IntV k"] by simp
  then show "count_list (map (\<lambda>i. rc ! i) (sampled_positions rc g)) (IntV k)
           \<le> min (count_list rc (IntV k)) 2369"
    by (simp add: balanced_positions_counts)
qed

lemma subsample_by_positions:
  assumes "rectangular df" and "getitem df ''rating'' = Inr rc"
  defines "S \<equiv> \<lambda>g k. take_rows
       (fst (choice (\<lambda>i. g (i + draws_before rc k)) [0..<count_list rc (IntV k)]
          (min (count_list rc (IntV k)) 2369)))
       (select_rows (map (\<lambda>x. x = IntV k) rc) df)"
  shows "bind (groupby_rating df) (\<lambda>gs. apply_sample gs g)
           = Inr (map (S g) (int_keys rc), \<lambda>i. g (i + balanced_rows rc))"
    and "index (concat_rows df (map (S g) (int_keys rc)))
           = map (\<lambda>i. index df ! i) (balanced_positions rc g)"
    and "columns (concat_rows df (map (S g) (int_keys rc))) = columns df"
    and "getitem df c = Inr xs \<Longrightarrow>
         getitem (concat_rows df (map (S g) (int_keys rc))) c
           = Inr (map (\<lambda>i. xs ! i) (balanced_positions rc g))"
proof -
  let ?G = "\<lambda>k. select_rows (map (\<lambda>x. x = IntV k) rc) df"
  let ?ks = "int_keys rc"
  let ?qs = "\<lambda>k. fst (choice (\<lambda>i. g (i + draws_before rc k)) [0..<count_list rc (IntV k)]
          (min (count_list rc (IntV k)) 2369))"
  have len: "length (index df) = length rc"
    using assms(1,2) column_length [of df "''rating''" rc] by (simp add: getattr_Inr_iff)
  have n: "nrows (?G k) = count_list rc (IntV k)" for k
    using len by (simp add: nrows_def length_sel filter_eq_replicate)
  have gs: "groupby_rating df = Inr (map ?G ?ks)"
    using assms(2) by (simp add: groupby_rating_def)
  have "sorted ?ks" by (simp add: int_keys_def)
  from apply_sample_keys [OF this int_keys_distinct, of ?G g]
  have "apply_sample (map ?G ?ks) g
      = Inr (map (S g) ?ks, \<lambda>i. g (i + balanced_rows rc))"
    by (simp add: n S_def draws_before_def balanced_rows_def)
  then show "bind (groupby_rating df) (\<lambda>gs. apply_sample gs g)
           = Inr (map (S g) ?ks, \<lambda>i. g (i + balanced_rows rc))"
    by (simp add: gs)
  have qr: "set (?qs k) \<subseteq> {0..<length (class_positions rc k)}" for k
    by (rule balanced_block(3))
  have "index (S g k) = map (\<lambda>i. index df ! i) (map (\<lambda>q. class_positions rc k ! q) (?qs k))" for k
    unfolding S_def by (rule take_rows_index [OF group_index [OF len] qr])
  then show "index (concat_rows df (map (S g) ?ks))
           = map (\<lambda>i. index df ! i) (balanced_positions rc g)"
    using concat_rows_index [of ?ks "S g" "index df"
        "\<lambda>k. map (\<lambda>q. class_positions rc k ! q) (?qs k)" df]
    by (simp add: balanced_positions_def)
  have "columns (S g k) = columns df" for k by (simp add: S_def)
  then show "columns (concat_rows df (map (S g) ?ks)) = columns df"
    by (intro concat_rows_columns) simp
  assume "getitem df c = Inr xs"
  then have c: "map_of (cols df) c = Some xs"
    by (simp add: getitem_def split: option.splits)
  then have "getattr df c = Inr xs" by (simp add: getattr_def)
  then have lx: "length xs = length rc"
    using column_length [OF assms(1)] len by simp
  have "map_of (cols (S g k)) c
      = Some (map (\<lambda>i. xs ! i) (map (\<lambda>q. class_positions rc k ! q) (?qs k)))" for k
    unfolding S_def by (rule take_rows_column [OF group_column [OF c lx] qr])
  then have "map_of (cols (concat_rows df (map (S g) ?ks))) c
      = Some (map (\<lambda>i. xs ! i) (balanced_positions rc g))"
    using concat_rows_column [OF c, of ?ks "S g"
        "\<lambda>k. map (\<lambda>q. class_positions rc k ! q) (?qs k)"]
    by (simp add: balanced_positions_def)
  then show "getitem (concat_rows df (map (S g) ?ks)) c
           = Inr (map (\<lambda>i. xs ! i) (balanced_positions rc g))"
    by (simp add: getitem_def)
qed

section \<open>Claims\<close>

text \<open>
  C2. The label remapping step maps every original rating r in {1,2,3,4,5} to
  max(r-2, 0): ratings 1 and 2 become class 0 and ratings 3, 4, 5 become classes 1, 2, 3,
  so that afterwards every rating lies in [0, num_class) = {0,1,2,3}. Stated on a frame
  whose rating column holds the integer ratings rs: the step returns, the rating column
  becomes the ratings mapped by max(r-2, 0), and each of them is in {0,1,2,3}.
\<close>

theorem remap_rating_classes:
  assumes "getitem df ''rating'' = Inr (map IntV rs)"
    and "set rs \<subseteq> {1..5}"
  shows "remap_rating df = Inr (setitem df ''rating'' (map (\<lambda>r. IntV (max (r - 2) 0)) rs))
       \<and> set (map (\<lambda>r. max (r - 2) 0) rs) \<subseteq> {0..<int num_class}
       \<and> map (\<lambda>r. max (r - 2) 0) [1, 2, 3, 4, 5] = [0, 0, 1, 2, 3 :: int]"
proof -
  have eq: "map (\<lambda>r. IntV (remap r)) rs = map (\<lambda>r. IntV (max (r - 2) 0)) rs"
    using assms(2) by (auto simp: remap_stars)
  have "set (map (\<lambda>r. max (r - 2) 0) rs) \<subseteq> {0..<int num_class}"
    using assms(2) by (auto simp: num_class_def)
  then show ?thesis
    using remap_rating_ints [OF assms(1)] eq by simp
qed

theorem remap_rating_classes_witness:
  "remap_rating \<lparr>index = [0, 1, 2], cols = [(''rating'', [IntV 1, IntV 5, IntV 3]),
       (''review_text'', [StrV ''a'', NaN, StrV ''b''])]\<rparr>
     = Inr \<lparr>index = [0, 1, 2], cols = [(''rating'', [IntV 0, IntV 3, IntV 1]),
       (''review_text'', [StrV ''a'', NaN, StrV ''b''])]\<rparr>"
  using remap_rating_classes [of "\<lparr>index = [0, 1, 2], cols = [(''rating'', [IntV 1, IntV 5, IntV 3]),
       (''review_text'', [StrV ''a'', NaN, StrV ''b''])]\<rparr>" "[1, 5, 3]"]
  by (simp add: getitem_def setitem_def)

text \<open>
  C3. After the short-review filtering step every remaining row has a non-null
  review_text with at least five pieces when split at single spaces (\<open>long_enough\<close>:
  the pieces that \<^verbatim>\<open>split(" ")\<close> counts include the empty ones around doubled, leading
  and trailing spaces, so this is a text with at least four spaces); every row with a
  null review_text or fewer than five pieces is dropped; and the helper column
  review_length is not a column of the result. Stated on a frame whose review_text
  column t holds strings and missing values: the cell returns a frame whose review_text
  column is t filtered by \<open>long_enough\<close>, with as many rows, and whose columns are those
  of the input without review_length.
\<close>

theorem short_reviews_dropped:
  assumes "rectangular df"
    and "getattr df ''review_text'' = Inr t"
    and "list_all (\<lambda>x. is_str x \<or> isna x) t"
  shows "\<exists>d. drop_short_reviews df = Inr d
      \<and> getitem d ''review_text'' = Inr (filter long_enough t)
      \<and> nrows d = length (filter long_enough t)
      \<and> columns d = filter (\<lambda>c. c \<noteq> ''review_length'') (columns df)"
proof -
  let ?d = "reset_index (without_column ''review_length'' (select_rows (map long_enough t) df))"
  have len: "length (index df) = length t"
    using column_length [OF assms(1,2)] by simp
  have 1: "drop_short_reviews df = Inr ?d"
    using short_review_filter_eq [OF assms(1,2)] assms(3) by (simp add: drop_short_reviews_def)
  have "getitem df ''review_text'' = Inr t"
    using assms(2) by (simp add: getattr_Inr_iff)
  then have 2: "getitem ?d ''review_text'' = Inr (filter long_enough t)"
    by (simp add: getitem_without_column getitem_select_rows sel_map_filter)
  have 3: "nrows ?d = length (filter long_enough t)"
    using len by (simp add: nrows_def reset_index_def length_sel)
  have 4: "columns ?d = filter (\<lambda>c. c \<noteq> ''review_length'') (columns df)"
    by (simp add: columns_without_column)
  from 1 2 3 4 show ?thesis by blast
qed

theorem short_reviews_dropped_witness:
  "\<exists>d. drop_short_reviews \<lparr>index = [0, 1, 2, 3],
         cols = [(''rating'', [IntV 3, IntV 0, IntV 1, IntV 2]),
           (''review_text'', [StrV ''runs small but very nice'', NaN, StrV ''too short'',
              StrV ''so  cute  '']),
           (''review_length'', [NaN, NaN, NaN, NaN])]\<rparr> = Inr d
      \<and> getitem d ''review_text'' = Inr [StrV ''runs small but very nice'', StrV ''so  cute  '']
      \<and> nrows d = 2
      \<and> columns d = [''rating'', ''review_text'']"
proof -
  let ?t = "[StrV ''runs small but very nice'', NaN, StrV ''too short'', StrV ''so  cute  '']"
  let ?df = "\<lparr>index = [0, 1, 2, 3], cols = [(''rating'', [IntV 3, IntV 0, IntV 1, IntV 2]),
       (''review_text'', ?t), (''review_length'', [NaN, NaN, NaN, NaN])]\<rparr>"
  have 1: "rectangular ?df" by (simp add: rectangular_def)
  have 2: "getattr ?df ''review_text'' = Inr ?t" by (simp add: getattr_def)
  have 3: "list_all (\<lambda>x. is_str x \<or> isna x) ?t" by (simp add: isna_def)
  show ?thesis
    using short_reviews_dropped [OF 1 2 3] by (auto simp: columns_def)
qed

text \<open>
  The claim as worded, with words in the everyday sense (\<open>spec_words\<close>), fails: a text of
  two words with doubled and trailing spaces has five pieces and is kept.
\<close>

theorem short_review_kept_counterexample:
  "drop_short_reviews \<lparr>index = [0], cols = [(''review_text'', [StrV ''so  cute  ''])]\<rparr>
     = Inr \<lparr>index = [0], cols = [(''review_text'', [StrV ''so  cute  ''])]\<rparr>
   \<and> spec_words ''so  cute  '' = [''so'', ''cute'']
   \<and> \<not> 5 \<le> length (spec_words ''so  cute  '')"
  by (simp add: drop_short_reviews_def short_review_filter_def getattr_def select_rows_def
        sel_def isna_def setitem_def drop_column_def columns_def without_column_def
        reset_index_def Let_def spec_words_def)

text \<open>
  C10. Cleaning never changes the review text of a row it keeps. On a frame as loaded
  (columns of equal length, names that stay distinct when renamed) whose column
  "Review Text" is t, and on which cleaning returns d: the review_text column of d holds
  the values of t at the positions \<open>surviving_rows t\<close>, in order and unchanged; these
  positions are the row labels carried by the frame just before its index is reset; and
  every other column except rating is the original column at the same positions, so
  each kept row is the original row with only its rating rewritten.
\<close>

theorem cleaning_keeps_review_text:
  assumes "rectangular df"
    and "distinct (map (\<lambda>c. lower (replace_space c)) (columns df))"
    and "getitem df ''Review Text'' = Inr t"
    and "cleaning df = Inr d"
  shows "getitem d ''review_text'' = Inr (map (\<lambda>i. t ! i) (surviving_rows t))
       \<and> set (surviving_rows t) \<subseteq> {0..<length t}
       \<and> (\<exists>raw. bind (mild_preprocessing df) short_review_filter = Inr raw
             \<and> d = reset_index raw
             \<and> index raw = map (\<lambda>i. index df ! i) (surviving_rows t))
       \<and> (\<forall>c xs. getitem df c = Inr xs
             \<and> lower (replace_space c) \<noteq> ''rating''
             \<and> lower (replace_space c) \<noteq> ''review_length''
           \<longrightarrow> getitem d (lower (replace_space c)) = Inr (map (\<lambda>i. xs ! i) (surviving_rows t)))"
proof -
  let ?df' = "rename_columns df"
  have tcol: "getitem ?df' ''review_text'' = Inr t"
    using getitem_rename_columns [OF assms(2,3)] by (simp add: rename_review_text)
  then have tattr: "getattr ?df' ''review_text'' = Inr t"
    by (simp add: getattr_Inr_iff)
  have rect: "rectangular ?df'" using assms(1) by simp
  have len: "length t = length (index df)"
    using column_length [OF rect tattr] by simp
  obtain rc where rc: "getitem ?df' ''rating'' = Inr rc"
  proof (cases "getitem ?df' ''rating''")
    case (Inl e)
    then have "cleaning df = Inl e"
      by (simp add: cleaning_def mild_preprocessing_def remap_rating_no_column)
    with assms(4) show ?thesis by simp
  next
    case (Inr rc)
    then show ?thesis by (rule that)
  qed
  let ?raw = "without_column ''review_length''
      (select_rows (map long_enough t) (setitem ?df' ''rating'' (map remap_cell rc)))"
  have ok: "\<not> list_ex is_str rc \<and> list_all is_int rc \<and> list_all (\<lambda>x. is_str x \<or> isna x) t"
    and d: "d = reset_index ?raw"
    using cleaning_eq [OF assms(1) rc tattr] assms(4) by (auto split: if_splits)
  have rr: "remap_rating ?df' = Inr (setitem ?df' ''rating'' (map remap_cell rc))"
    using ok remap_rating_cases [OF rc] by simp
  have "length rc = length (index ?df')"
    using rect rc column_length [of ?df' "''rating''" rc] by (simp add: getattr_Inr_iff)
  then have rect2: "rectangular (setitem ?df' ''rating'' (map remap_cell rc))"
    using rect by (simp add: rectangular_setitem)
  have t2: "getattr (setitem ?df' ''rating'' (map remap_cell rc)) ''review_text'' = Inr t"
    using tattr by (simp add: getattr_setitem)
  have raw: "bind (mild_preprocessing df) short_review_filter = Inr ?raw"
    using ok short_review_filter_eq [OF rect2 t2] by (simp add: mild_preprocessing_def rr)
  have col: "getitem d (lower (replace_space c)) = Inr (map (\<lambda>i. xs ! i) (surviving_rows t))"
    if c: "getitem df c = Inr xs" "lower (replace_space c) \<noteq> ''rating''"
      "lower (replace_space c) \<noteq> ''review_length''" for c xs
  proof -
    have g: "getitem ?df' (lower (replace_space c)) = Inr xs"
      by (rule getitem_rename_columns [OF assms(2) c(1)])
    then have "getattr ?df' (lower (replace_space c)) = Inr xs"
      by (simp add: getattr_Inr_iff)
    then have "length xs = length t"
      using column_length [OF rect] len by simp
    then have "sel (map long_enough t) xs = map (\<lambda>i. xs ! i) (surviving_rows t)"
      by (simp add: sel_nth surviving_rows_def)
    then show ?thesis
      using g c(2,3)
      by (simp add: d getitem_without_column getitem_select_rows getitem_setitem)
  qed
  have 1: "getitem d ''review_text'' = Inr (map (\<lambda>i. t ! i) (surviving_rows t))"
    using col [OF assms(3)] by (simp add: rename_review_text)
  have 2: "set (surviving_rows t) \<subseteq> {0..<length t}"
    by (auto simp: surviving_rows_def)
  have 3: "index ?raw = map (\<lambda>i. index df ! i) (surviving_rows t)"
    using len by (simp add: sel_nth surviving_rows_def)
  from 1 2 3 raw d col show ?thesis by blast
qed

theorem cleaning_keeps_review_text_witness:
  "cleaning \<lparr>index = [0, 1, 2],
       cols = [(''Title'', [NaN, StrV ''Love it'', StrV ''Cute'']),
         (''Review Text'', [StrV ''runs small but very nice'', NaN, StrV ''so  cute  '']),
         (''Rating'', [IntV 5, IntV 1, IntV 2])]\<rparr>
     = Inr \<lparr>index = [0, 1],
         cols = [(''title'', [NaN, StrV ''Cute'']),
           (''review_text'', [StrV ''runs small but very nice'', StrV ''so  cute  '']),
           (''rating'', [IntV 3, IntV 0])]\<rparr>
   \<and> surviving_rows [StrV ''runs small but very nice'', NaN, StrV ''so  cute  ''] = [0, 2]
   \<and> getitem \<lparr>index = [0, 1],
         cols = [(''title'', [NaN, StrV ''Cute'']),
           (''review_text'', [StrV ''runs small but very nice'', StrV ''so  cute  '']),
           (''rating'', [IntV 3, IntV 0])]\<rparr> ''review_text''
     = Inr (map (\<lambda>i. [StrV ''runs small but very nice'', NaN, StrV ''so  cute  ''] ! i)
         (surviving_rows [StrV ''runs small but very nice'', NaN, StrV ''so  cute  '']))"
proof -
  let ?t = "[StrV ''runs small but very nice'', NaN, StrV ''so  cute  '']"
  let ?df = "\<lparr>index = [0, 1, 2],
       cols = [(''Title'', [NaN, StrV ''Love it'', StrV ''Cute'']),
         (''Review Text'', ?t),
         (''Rating'', [IntV 5, IntV 1, IntV 2])]\<rparr>"
  let ?d = "\<lparr>index = [0, 1],
         cols = [(''title'', [NaN, StrV ''Cute'']),
           (''review_text'', [StrV ''runs small but very nice'', StrV ''so  cute  '']),
           (''rating'', [IntV 3, IntV 0])]\<rparr>"
  have 1: "rectangular ?df" by (simp add: rectangular_def)
  have 2: "distinct (map (\<lambda>c. lower (replace_space c)) (columns ?df))"
    by (simp add: columns_def lower_def replace_space_def lower_char_def)
  have 3: "getitem ?df ''Review Text'' = Inr ?t" by (simp add: getitem_def)
  have 4: "cleaning ?df = Inr ?d" by (simp add: eval_defs)
  have 5: "surviving_rows ?t = [0, 2]" by code_simp
  from cleaning_keeps_review_text [OF 1 2 3 4]
  have "getitem ?d ''review_text'' = Inr (map (\<lambda>i. ?t ! i) (surviving_rows ?t))" by blast
  with 4 5 show ?thesis by blast
qed





text \<open>
  C8. The class-balanced subsampling step cuts every rating class down to
  min(its size, 2369) rows and then draws 1000 rows uniformly at random, so that the
  result has exactly 1000 rows and holds, of every class, at most 2369 rows and at most
  as many as the class had. Stated for every stream \<open>g\<close> of random draws, on a frame
  with an integer rating column \<open>rc\<close> that keeps at least 1000 rows once its classes
  are cut down (as it does when 2369 is the size of the smallest class):

  \<^item> grouping and sampling return, class after class, the rows of the class at the
    positions \<open>choice\<close> draws, min(size, 2369) of them, and leave the stream after the
    draws they used;
  \<^item> the frame \<open>bal\<close> put together from them is the given frame at the rows
    \<open>balanced_positions rc g\<close>, in every column and in the index; these rows are all
    different and hold exactly min(size, 2369) rows of each class;
  \<^item> the cell returns the frame \<open>d\<close> of the rows of \<open>bal\<close> at the 1000 positions that
    \<open>choice\<close> draws next; \<open>d\<close> has the columns of the given frame and is that frame at
    the rows \<open>sampled_positions rc g\<close>, in every column and in the index; these are 1000
    different rows, with at most min(size, 2369) of each class;
  \<^item> the draw is uniform: the runs of draws in range and the ordered samples of 1000
    different positions of \<open>bal\<close> correspond one to one under \<open>choice\<close>, so that draws
    that are uniform give every sample with the same probability; and likewise for
    the sample of each class.
\<close>

theorem subsample_thousand_rows:
  assumes "rectangular df"
    and "getitem df ''rating'' = Inr rc"
    and "list_all is_int rc"
    and "1000 \<le> balanced_rows rc"
  shows "\<exists>ss bal d.
      bind (groupby_rating df) (\<lambda>gs. apply_sample gs g)
        = Inr (ss, \<lambda>i. g (i + balanced_rows rc))
    \<and> ss = map (\<lambda>k. take_rows
                 (fst (choice (\<lambda>i. g (i + draws_before rc k)) [0..<count_list rc (IntV k)]
                    (min (count_list rc (IntV k)) 2369)))
                 (select_rows (map (\<lambda>x. x = IntV k) rc) df)) (int_keys rc)
    \<and> bal = concat_rows df ss
    \<and> nrows bal = balanced_rows rc
    \<and> index bal = map (\<lambda>i. index df ! i) (balanced_positions rc g)
    \<and> (\<forall>c xs. getitem df c = Inr xs
          \<longrightarrow> getitem bal c = Inr (map (\<lambda>i. xs ! i) (balanced_positions rc g)))
    \<and> distinct (balanced_positions rc g)
    \<and> set (balanced_positions rc g) \<subseteq> {0..<length rc}
    \<and> (\<forall>k. count_list (map (\<lambda>i. rc ! i) (balanced_positions rc g)) (IntV k)
            = min (count_list rc (IntV k)) 2369)
    \<and> subsample df g = Inr (d, \<lambda>i. g (i + (balanced_rows rc + 1000)))
    \<and> d = take_rows (fst (choice (\<lambda>i. g (i + balanced_rows rc)) [0..<balanced_rows rc] 1000)) bal
    \<and> nrows d = 1000
    \<and> index d = map (\<lambda>i. index df ! i) (sampled_positions rc g)
    \<and> columns d = columns df
    \<and> (\<forall>c xs. getitem df c = Inr xs
          \<longrightarrow> getitem d c = Inr (map (\<lambda>i. xs ! i) (sampled_positions rc g)))
    \<and> length (sampled_positions rc g) = 1000
    \<and> distinct (sampled_positions rc g)
    \<and> set (sampled_positions rc g) \<subseteq> {0..<length rc}
    \<and> (\<forall>k. count_list (map (\<lambda>i. rc ! i) (sampled_positions rc g)) (IntV k)
            \<le> min (count_list rc (IntV k)) 2369)
    \<and> bij_betw (\<lambda>ds. fst (choice (stream_of ds) [0..<balanced_rows rc] 1000))
          (draws 1000 (balanced_rows rc)) (samples 1000 [0..<balanced_rows rc])
    \<and> (\<forall>k. bij_betw (\<lambda>ds. fst (choice (stream_of ds) [0..<count_list rc (IntV k)]
                          (min (count_list rc (IntV k)) 2369)))
            (draws (min (count_list rc (IntV k)) 2369) (count_list rc (IntV k)))
            (samples (min (count_list rc (IntV k)) 2369) [0..<count_list rc (IntV k)]))"
proof -
  let ?ss = "map (\<lambda>k. take_rows
                 (fst (choice (\<lambda>i. g (i + draws_before rc k)) [0..<count_list rc (IntV k)]
                    (min (count_list rc (IntV k)) 2369)))
                 (select_rows (map (\<lambda>x. x = IntV k) rc) df)) (int_keys rc)"
  let ?bal = "concat_rows df ?ss"
  let ?g1 = "\<lambda>i. g (i + balanced_rows rc)"
  let ?ps = "fst (choice ?g1 [0..<balanced_rows rc] 1000)"
  let ?d = "take_rows ?ps ?bal"
  let ?bp = "balanced_positions rc g"
  note pos = subsample_by_positions [OF assms(1,2), where g = g]
  have f1: "bind (groupby_rating df) (\<lambda>gs. apply_sample gs g) = Inr (?ss, ?g1)"
    by (rule pos(1))
  have f2: "?ss = ?ss" by (rule refl)
  have f3: "?bal = ?bal" by (rule refl)
  have f5: "index ?bal = map (\<lambda>i. index df ! i) ?bp" by (rule pos(2))
  have f4: "nrows ?bal = balanced_rows rc"
    by (simp add: nrows_def f5 balanced_positions_length)
  have f6: "\<forall>c xs. getitem df c = Inr xs \<longrightarrow> getitem ?bal c = Inr (map (\<lambda>i. xs ! i) ?bp)"
    using pos(4) by blast
  have f7: "distinct ?bp" by (rule balanced_positions_distinct)
  have f8: "set ?bp \<subseteq> {0..<length rc}" by (rule balanced_positions_range)
  have f9: "\<forall>k. count_list (map (\<lambda>i. rc ! i) ?bp) (IntV k) = min (count_list rc (IntV k)) 2369"
    by (simp add: balanced_positions_counts)
  from f1 obtain gs where "groupby_rating df = Inr gs" "apply_sample gs g = Inr (?ss, ?g1)"
    by (cases "groupby_rating df") auto
  then have "subsample df g = sample 1000 ?bal ?g1"
    by (simp add: subsample_def)
  moreover have "sample 1000 ?bal ?g1
      = Inr (take_rows (fst (choice ?g1 [0..<nrows ?bal] 1000)) ?bal, \<lambda>i. ?g1 (i + 1000))"
    by (rule sample_eq) (simp add: f4 assms(4))
  moreover have "(\<lambda>i. ?g1 (i + 1000)) = (\<lambda>i. g (i + (balanced_rows rc + 1000)))"
    by (simp add: ac_simps)
  ultimately have f10: "subsample df g = Inr (?d, \<lambda>i. g (i + (balanced_rows rc + 1000)))"
    by (simp only: f4)
  have f11: "?d = ?d" by (rule refl)
  have psl: "length ?ps = 1000" using assms(4) by (simp add: choice_length)
  have "distinct ?ps \<and> set ?ps \<subseteq> set [0..<balanced_rows rc]"
    by (rule choice_distinct) simp
  then have psr: "set ?ps \<subseteq> {0..<length ?bp}"
    by (simp add: balanced_positions_length)
  have f12: "nrows ?d = 1000" using psl by simp
  have f13: "index ?d = map (\<lambda>i. index df ! i) (sampled_positions rc g)"
    using take_rows_index [OF f5 psr] by (simp add: sampled_positions_def)
  have f14: "columns ?d = columns df" using pos(3) by simp
  have f15: "\<forall>c xs. getitem df c = Inr xs
          \<longrightarrow> getitem ?d c = Inr (map (\<lambda>i. xs ! i) (sampled_positions rc g))"
  proof (intro allI impI)
    fix c xs assume "getitem df c = Inr xs"
    then have "getitem ?bal c = Inr (map (\<lambda>i. xs ! i) ?bp)" by (rule pos(4))
    then have "map_of (cols ?bal) c = Some (map (\<lambda>i. xs ! i) ?bp)"
      by (simp add: getitem_def split: option.splits)
    from take_rows_column [OF this psr]
    show "getitem ?d c = Inr (map (\<lambda>i. xs ! i) (sampled_positions rc g))"
      by (simp add: getitem_def sampled_positions_def)
  qed
  note sp = sampled_positions_props [OF assms(4), where g = g]
  have f19: "\<forall>k. count_list (map (\<lambda>i. rc ! i) (sampled_positions rc g)) (IntV k)
            \<le> min (count_list rc (IntV k)) 2369"
    using sp(4) by blast
  have f20: "bij_betw (\<lambda>ds. fst (choice (stream_of ds) [0..<balanced_rows rc] 1000))
          (draws 1000 (balanced_rows rc)) (samples 1000 [0..<balanced_rows rc])"
    using choice_uniform [of "[0..<balanced_rows rc]" 1000] assms(4) by simp
  have f21: "\<forall>k. bij_betw (\<lambda>ds. fst (choice (stream_of ds) [0..<count_list rc (IntV k)]
                          (min (count_list rc (IntV k)) 2369)))
            (draws (min (count_list rc (IntV k)) 2369) (count_list rc (IntV k)))
            (samples (min (count_list rc (IntV k)) 2369) [0..<count_list rc (IntV k)])"
  proof
    fix k
    show "bij_betw (\<lambda>ds. fst (choice (stream_of ds) [0..<count_list rc (IntV k)]
                          (min (count_list rc (IntV k)) 2369)))
            (draws (min (count_list rc (IntV k)) 2369) (count_list rc (IntV k)))
            (samples (min (count_list rc (IntV k)) 2369) [0..<count_list rc (IntV k)])"
      using choice_uniform [of "[0..<count_list rc (IntV k)]" "min (count_list rc (IntV k)) 2369"]
      by simp
  qed
  show ?thesis
    apply (rule exI [of _ ?ss], rule exI [of _ ?bal], rule exI [of _ ?d])
    apply (intro conjI)
    apply (rule f1 f2 f3 f4 f5 f6 f7 f8 f9 f10 f11 f12 f13 f14 f15 sp(1) sp(2) sp(3) f19 f20 f21)+
    done
qed


theorem subsample_thousand_rows_witness:
  "\<exists>d. subsample \<lparr>index = [0..<3500],
         cols = [(''rating'', replicate 3000 (IntV 3) @ replicate 500 (IntV 0)),
                 (''review_text'', replicate 3500 (StrV ''runs small but very nice''))]\<rparr>
       (\<lambda>i. 7 * i + 3) = Inr (d, \<lambda>i. 7 * (i + (2869 + 1000)) + 3)
     \<and> nrows d = 1000
     \<and> columns d = [''rating'', ''review_text'']
     \<and> getitem d ''rating''
         = Inr (map (\<lambda>i. (replicate 3000 (IntV 3) @ replicate 500 (IntV 0)) ! i)
             (sampled_positions (replicate 3000 (IntV 3) @ replicate 500 (IntV 0))
                (\<lambda>i. 7 * i + 3)))
     \<and> count_list (map (\<lambda>i. (replicate 3000 (IntV 3) @ replicate 500 (IntV 0)) ! i)
             (sampled_positions (replicate 3000 (IntV 3) @ replicate 500 (IntV 0))
                (\<lambda>i. 7 * i + 3))) (IntV 3) \<le> 2369
     \<and> count_list (map (\<lambda>i. (replicate 3000 (IntV 3) @ replicate 500 (IntV 0)) ! i)
             (sampled_positions (replicate 3000 (IntV 3) @ replicate 500 (IntV 0))
                (\<lambda>i. 7 * i + 3))) (IntV 0) \<le> 500"
proof -
  let ?rc = "replicate 3000 (IntV 3) @ replicate 500 (IntV 0)"
  let ?g = "\<lambda>i::nat. 7 * i + 3 :: nat"
  let ?df = "\<lparr>index = [0..<3500],
         cols = [(''rating'', ?rc),
                 (''review_text'', replicate 3500 (StrV ''runs small but very nice''))]\<rparr>"
  have 1: "rectangular ?df" by (simp add: rectangular_def)
  have 2: "getitem ?df ''rating'' = Inr ?rc" by (simp add: getitem_def)
  have 3: "list_all is_int ?rc" by (simp add: list_all_iff)
  have keys: "int_keys ?rc = [0, 3]" by (rule int_keys_two_classes) simp_all
  have b: "balanced_rows ?rc = 2869"
    by (simp add: balanced_rows_def keys count_list_replicate)
  then have 4: "1000 \<le> balanced_rows ?rc" by simp
  from subsample_thousand_rows [OF 1 2 3 4, of ?g]
  obtain d where d: "subsample ?df ?g = Inr (d, \<lambda>i. ?g (i + (balanced_rows ?rc + 1000)))"
      "nrows d = 1000" "columns d = columns ?df"
      "\<forall>c xs. getitem ?df c = Inr xs
          \<longrightarrow> getitem d c = Inr (map (\<lambda>i. xs ! i) (sampled_positions ?rc ?g))"
      "\<forall>k. count_list (map (\<lambda>i. ?rc ! i) (sampled_positions ?rc ?g)) (IntV k)
            \<le> min (count_list ?rc (IntV k)) 2369"
    by blast
  from d(4) 2 have r: "getitem d ''rating'' = Inr (map (\<lambda>i. ?rc ! i) (sampled_positions ?rc ?g))"
    by blast
  from d(5) have "count_list (map (\<lambda>i. ?rc ! i) (sampled_positions ?rc ?g)) (IntV 3)
        \<le> min (count_list ?rc (IntV 3)) 2369"
      "count_list (map (\<lambda>i. ?rc ! i) (sampled_positions ?rc ?g)) (IntV 0)
        \<le> min (count_list ?rc (IntV 0)) 2369" by blast+
  then have c: "count_list (map (\<lambda>i. ?rc ! i) (sampled_positions ?rc ?g)) (IntV 3) \<le> 2369"
      "count_list (map (\<lambda>i. ?rc ! i) (sampled_positions ?rc ?g)) (IntV 0) \<le> 500"
    by (simp_all add: count_list_replicate)
  have cols: "columns ?df = [''rating'', ''review_text'']" by (simp add: columns_def)
  from d(1) have s: "subsample ?df ?g = Inr (d, \<lambda>i. 7 * (i + (2869 + 1000)) + 3)"
    by (simp only: b)
  from s d(2) d(3) cols r c show ?thesis by (intro exI [of _ d] conjI) simp_all
qed

text \<open>
  C1. For every frame of review texts and the same tokenizer configuration (max_length
  90, padding to the maximal length, truncation, special tokens), the two calling
  conventions of HFPreprocessor give the same token ids, row for row: \<open>fit_transform\<close>
  and \<open>transform\<close> of the preprocessor built with the text column and the arguments,
  and \<open>encode\<close> of the bare preprocessor on the text column as a list. Stated for every
  tokenizer \<open>hf\<close> and for the train and the test frame: both conventions return, and
  return the tokenizer's output for the texts under the notebook's arguments.
\<close>

theorem calling_conventions_agree:
  assumes "getitem train ''review_text'' = Inr (map StrV ts)"
    and "getitem test ''review_text'' = Inr (map StrV us)"
  shows "X_text_tr1 hf train = X_text_tr2 hf train
       \<and> X_text_te1 hf test = X_text_te2 hf test
       \<and> X_text_tr2 hf train = Inr (hf encode_params ts)
       \<and> X_text_te2 hf test = Inr (hf encode_params us)"
proof -
  have a: "getattr train ''review_text'' = Inr (map StrV ts)"
    and b: "getattr test ''review_text'' = Inr (map StrV us)"
    using assms by (simp_all add: getattr_Inr_iff)
  have 1: "X_text_tr1 hf train = Inr (hf encode_params ts)"
    using assms(1)
    by (simp add: X_text_tr1_def fit_transform_def transform_def tokenizer1_def
        tolist_strings encode_def)
  have 2: "X_text_te1 hf test = Inr (hf encode_params us)"
    using assms(2)
    by (simp add: X_text_te1_def transform_def tokenizer1_def tolist_strings encode_def)
  have 3: "X_text_tr2 hf train = Inr (hf encode_params ts)"
    using a by (simp add: X_text_tr2_def tolist_strings encode_def encode_params_def)
  have 4: "X_text_te2 hf test = Inr (hf encode_params us)"
    using b by (simp add: X_text_te2_def tolist_strings encode_def encode_params_def)
  from 1 2 3 4 show ?thesis by simp
qed

theorem calling_conventions_agree_witness:
  "X_text_tr1 (\<lambda>kwargs texts. map (\<lambda>s. [int (length s), int (the (max_length kwargs))]) texts)
     \<lparr>index = [0, 1], cols = [(''rating'', [IntV 3, IntV 0]),
        (''review_text'', [StrV ''runs small but very nice'', StrV ''so  cute  ''])]\<rparr>
   = X_text_tr2 (\<lambda>kwargs texts. map (\<lambda>s. [int (length s), int (the (max_length kwargs))]) texts)
     \<lparr>index = [0, 1], cols = [(''rating'', [IntV 3, IntV 0]),
        (''review_text'', [StrV ''runs small but very nice'', StrV ''so  cute  ''])]\<rparr>
   \<and> X_text_tr2 (\<lambda>kwargs texts. map (\<lambda>s. [int (length s), int (the (max_length kwargs))]) texts)
     \<lparr>index = [0, 1], cols = [(''rating'', [IntV 3, IntV 0]),
        (''review_text'', [StrV ''runs small but very nice'', StrV ''so  cute  ''])]\<rparr>
   = Inr [[24, 90], [10, 90]]"
proof -
  let ?df = "\<lparr>index = [0, 1], cols = [(''rating'', [IntV 3, IntV 0]),
        (''review_text'', [StrV ''runs small but very nice'', StrV ''so  cute  ''])]\<rparr>"
  have g: "getitem ?df ''review_text''
      = Inr (map StrV [''runs small but very nice'', ''so  cute  ''])"
    by (simp add: getitem_def)
  show ?thesis
    using calling_conventions_agree [OF g g,
        of "\<lambda>kwargs texts. map (\<lambda>s. [int (length s), int (the (max_length kwargs))]) texts"]
    by (simp add: encode_params_def)
qed

text \<open>
  C4. Every tokenizer invocation, on both paths and on train and test, uses the
  configuration max_length 90, padding to the maximal length, truncation enabled,
  special tokens added, so that every text is encoded as a row of exactly 90 ids. Stated
  for every vocabulary (subword algorithm and special ids) under the modelled policy of
  padding and truncation: the four arrays are the batch encodings of the texts under
  \<open>encode_params\<close>, and each of their rows has length 90.
\<close>

theorem encoded_rows_have_length_90:
  assumes "getitem train ''review_text'' = Inr (map StrV ts)"
    and "getitem test ''review_text'' = Inr (map StrV us)"
  shows "\<exists>tr1 te1 tr2 te2.
           X_text_tr1 (batch_encode_plus v) train = Inr tr1
         \<and> X_text_te1 (batch_encode_plus v) test = Inr te1
         \<and> X_text_tr2 (batch_encode_plus v) train = Inr tr2
         \<and> X_text_te2 (batch_encode_plus v) test = Inr te2
         \<and> tr1 = batch_encode_plus v encode_params ts
         \<and> te1 = batch_encode_plus v encode_params us
         \<and> tr2 = batch_encode_plus v encode_params ts
         \<and> te2 = batch_encode_plus v encode_params us
         \<and> map length tr1 = replicate (length ts) 90
         \<and> map length te1 = replicate (length us) 90
         \<and> map length tr2 = replicate (length ts) 90
         \<and> map length te2 = replicate (length us) 90"
proof -
  have a: "getattr train ''review_text'' = Inr (map StrV ts)"
    and b: "getattr test ''review_text'' = Inr (map StrV us)"
    using assms by (simp_all add: getattr_Inr_iff)
  have 1: "X_text_tr1 (batch_encode_plus v) train = Inr (batch_encode_plus v encode_params ts)"
    using assms(1)
    by (simp add: X_text_tr1_def fit_transform_def transform_def tokenizer1_def
        tolist_strings encode_def)
  have 2: "X_text_te1 (batch_encode_plus v) test = Inr (batch_encode_plus v encode_params us)"
    using assms(2)
    by (simp add: X_text_te1_def transform_def tokenizer1_def tolist_strings encode_def)
  have 3: "X_text_tr2 (batch_encode_plus v) train = Inr (batch_encode_plus v encode_params ts)"
    using a by (simp add: X_text_tr2_def tolist_strings encode_def encode_params_def)
  have 4: "X_text_te2 (batch_encode_plus v) test = Inr (batch_encode_plus v encode_params us)"
    using b by (simp add: X_text_te2_def tolist_strings encode_def encode_params_def)
  from 1 2 3 4 show ?thesis
    by (simp add: batch_encode_plus_lengths)
qed

theorem encoded_rows_have_length_90_witness:
  "\<exists>tr1 tr2.
      X_text_tr1 (batch_encode_plus
          \<lparr>subword_ids = (\<lambda>s. map (\<lambda>p. int (length p)) (split_space s)),
           cls_id = 101, sep_id = 102, pad_id = 0\<rparr>)
        \<lparr>index = [0, 1], cols = [(''rating'', [IntV 3, IntV 0]),
           (''review_text'', map StrV [''runs small but very nice'',
              concat (replicate 120 ''ab '')])]\<rparr> = Inr tr1
    \<and> X_text_tr2 (batch_encode_plus
          \<lparr>subword_ids = (\<lambda>s. map (\<lambda>p. int (length p)) (split_space s)),
           cls_id = 101, sep_id = 102, pad_id = 0\<rparr>)
        \<lparr>index = [0, 1], cols = [(''rating'', [IntV 3, IntV 0]),
           (''review_text'', map StrV [''runs small but very nice'',
              concat (replicate 120 ''ab '')])]\<rparr> = Inr tr2
    \<and> map length tr1 = [90, 90] \<and> map length tr2 = [90, 90]"
proof -
  let ?df = "\<lparr>index = [0, 1], cols = [(''rating'', [IntV 3, IntV 0]),
           (''review_text'', map StrV [''runs small but very nice'',
              concat (replicate 120 ''ab '')])]\<rparr>"
  have g: "getitem ?df ''review_text''
      = Inr (map StrV [''runs small but very nice'', concat (replicate 120 ''ab '')])"
    by (simp add: getitem_def)
  have "replicate (length [''runs small but very nice'', concat (replicate 120 ''ab '')]) 90
      = [90, 90 :: nat]" by simp
  with encoded_rows_have_length_90 [OF g g,
      of "\<lparr>subword_ids = (\<lambda>s. map (\<lambda>p. int (length p)) (split_space s)),
           cls_id = 101, sep_id = 102, pad_id = 0\<rparr>"]
  show ?thesis by auto
qed

text \<open>
  C7. The composite WideDeep predictor is built with the pretrained transformer wrapper
  as its only branch, in the text slot (deeptext), with prediction dimension 4; the
  wide and the deep tabular branch are absent.
\<close>

theorem only_text_branch:
  "branches model = [(''deeptext'', HFModel ''distilbert-base-uncased'')]
   \<and> wide model = None \<and> deeptabular model = None \<and> deepimage model = None
   \<and> deeptext model = Some hf_model \<and> pred_dim model = 4"
  by (simp add: branches_def model_def hf_model_def)

text \<open>
  C9. The prediction dimension of the composite model equals the number of class labels
  that the rating remapping produces, the labels being 0, 1, 2, 3; so for predictions
  with one row of \<open>pred_dim\<close> class probabilities per test input, the argmax of every
  row is one of these labels, the set the true test ratings lie in.
\<close>

theorem predicted_classes_are_labels:
  assumes "predict_proba_shape model preds_text"
  shows "\<exists>cls. pred_text_class preds_text = Inr cls
           \<and> length cls = length preds_text
           \<and> int ` set cls \<subseteq> remap ` {1..5}
           \<and> remap ` {1..5} = {0, 1, 2, 3}
           \<and> card (remap ` {1..5}) = pred_dim model"
proof -
  have p: "pred_dim model = 4" by (simp add: model_def)
  from assms obtain cls where cls: "traverse argmax preds_text = Inr cls"
      "length cls = length preds_text" "set cls \<subseteq> {0..<4}"
    using traverse_argmax [of 4 preds_text] p by (auto simp: predict_proba_shape_def)
  have "int ` {0..<4} = {0, 1, 2, 3}"
  proof -
    have "{0..<4::nat} = {0, 1, 2, 3}" by auto
    then show ?thesis by simp
  qed
  with cls(3) have "int ` set cls \<subseteq> {0, 1, 2, 3}" by blast
  with cls(1,2) show ?thesis
    by (simp add: pred_text_class_def remap_labels p)
qed

theorem predicted_classes_are_labels_witness:
  "pred_text_class [[10, 20, 60, 10], [25, 25, 25, 25 :: int]] = Inr [2, 0]
   \<and> int ` set [2, 0] \<subseteq> remap ` {1..5}"
proof -
  have h: "predict_proba_shape model [[10, 20, 60, 10], [25, 25, 25, 25 :: int]]"
    by (simp add: predict_proba_shape_def model_def)
  have e: "pred_text_class [[10, 20, 60, 10], [25, 25, 25, 25 :: int]] = Inr [2, 0]"
    by (simp add: pred_text_class_def argmax_def)
  from predicted_classes_are_labels [OF h] e show ?thesis by auto
qed

end
